theory Spec2Isabelle
  imports Complex_Main "HOL-Library.Log_Nat" "HOL-Library.Product_Lexorder"
begin

section \<open>Data model of \<^verbatim>\<open>app.py\<close>\<close>

text \<open>
  The exceptions the program can meet. \<^verbatim>\<open>InputError\<close> is the program's own class
  (line 11); the others are Python's and peewee's.
\<close>

datatype error = ValueError | OverflowError | IntegrityError | DoesNotExist | InputError | EOFError

text \<open>A \<^verbatim>\<open>datetime.datetime\<close> value; comparison is lexicographic on its fields.\<close>

record datetime =
  year :: nat
  month :: nat
  day :: nat
  hour :: nat
  minute :: nat
  second :: nat
  microsecond :: nat

text \<open>\<^verbatim>\<open>datetime.datetime(y, m, d)\<close>: the day at midnight.\<close>

definition datetime_ymd :: "nat \<Rightarrow> nat \<Rightarrow> nat \<Rightarrow> datetime" where
  "datetime_ymd y m d =
     \<lparr>year = y, month = m, day = d, hour = 0, minute = 0, second = 0, microsecond = 0\<rparr>"

definition dt_key :: "datetime \<Rightarrow> nat \<times> nat \<times> nat \<times> nat \<times> nat \<times> nat \<times> nat" where
  "dt_key d = (year d, month d, day d, hour d, minute d, second d, microsecond d)"

definition dt_ge :: "datetime \<Rightarrow> datetime \<Rightarrow> bool" where
  "dt_ge a b \<longleftrightarrow> dt_key b \<le> dt_key a"

definition midnight :: "datetime \<Rightarrow> datetime" where
  "midnight d = d\<lparr>hour := 0, minute := 0, second := 0, microsecond := 0\<rparr>"

text \<open>
  The model class \<^verbatim>\<open>Product\<close> (lines 15-23): one row of the table. The table is the
  list of its rows in rowid order, which is the order \<^verbatim>\<open>Product.select()\<close> scans.
\<close>

record Product =
  product_id :: nat
  product_name :: string
  product_quantity :: int
  product_price :: int
  date_updated :: datetime

type_synonym table = "Product list"

text \<open>
  The \<^verbatim>\<open>dictionary\<close> handed to \<^verbatim>\<open>add_entry\<close> and \<^verbatim>\<open>update_duplicate\<close>. Its quantity
  is still the text of the CSV cell on the import path and already an \<^verbatim>\<open>int\<close> on the
  interactive path, so it is a dynamically typed value here.
\<close>

datatype pyval = PyStr string | PyInt int

record entry =
  d_product_name :: string
  d_product_quantity :: pyval
  d_product_price :: int
  d_date_updated :: datetime

text \<open>
  One data row of \<^verbatim>\<open>inventory.csv\<close> as \<^verbatim>\<open>csv.DictReader\<close> yields it when the header
  names the four columns and the row has a cell for each: four texts. The same record is
  the dictionary that \<^verbatim>\<open>csv.DictWriter\<close> writes for a product. A text is a sequence of
  characters with code points below 256; the only decimal digits among them are the ASCII
  ones.
\<close>

record csv_row =
  c_product_name :: string
  c_product_quantity :: string
  c_product_price :: string
  c_date_updated :: string

section \<open>Python's \<^verbatim>\<open>int\<close> on a text\<close>

text \<open>
  The white space that \<^verbatim>\<open>int\<close> and \<^verbatim>\<open>float\<close> strip from a text: the ASCII white space
  and, beyond ASCII, the next-line character U+0085 and the no-break space U+00A0. The
  separators U+001C to U+001F are not stripped.
\<close>

definition is_space :: "char \<Rightarrow> bool" where
  "is_space c \<longleftrightarrow>
     c \<in> {CHR '' '', CHR 0x09, CHR 0x0A, CHR 0x0B, CHR 0x0C, CHR 0x0D, CHR 0x85, CHR 0xA0}"

definition is_digit :: "char \<Rightarrow> bool" where
  "is_digit c \<longleftrightarrow> 48 \<le> (of_char c :: nat) \<and> (of_char c :: nat) \<le> 57"

definition digit_val :: "char \<Rightarrow> nat" where
  "digit_val c = of_char c - 48"

text \<open>The value of a digit sequence, most significant digit first.\<close>

definition digits_val :: "string \<Rightarrow> nat" where
  "digits_val s = foldl (\<lambda>acc c. 10 * acc + digit_val c) 0 s"

definition strip_ws :: "string \<Rightarrow> string" where
  "strip_ws s = rev (dropWhile is_space (rev (dropWhile is_space s)))"

text \<open>Splits an optional sign off: the flag says whether it was a minus.\<close>

definition split_sign :: "string \<Rightarrow> bool \<times> string" where
  "split_sign s =
     (case s of
        [] \<Rightarrow> (False, [])
      | c # cs \<Rightarrow> if c = CHR ''-'' then (True, cs) else if c = CHR ''+'' then (False, cs)
                 else (False, s))"

text \<open>
  Underscores may only stand between two digits: \<open>underscores_ok prev s\<close> scans \<open>s\<close>
  with the character before it.
\<close>

fun underscores_ok :: "char \<Rightarrow> string \<Rightarrow> bool" where
  "underscores_ok prev [] = (prev \<noteq> CHR ''_'')"
| "underscores_ok prev (c # cs) =
     ((if c = CHR ''_'' then is_digit prev else (prev = CHR ''_'' \<longrightarrow> is_digit c))
      \<and> underscores_ok c cs)"

definition remove_underscores :: "string \<Rightarrow> string option" where
  "remove_underscores s =
     (if underscores_ok (CHR 0x00) s then Some (filter (\<lambda>c. c \<noteq> CHR ''_'') s) else None)"

text \<open>
  \<^verbatim>\<open>int(x)\<close>: the identity on an \<^verbatim>\<open>int\<close>; on a text, optional white space around an
  optional sign and decimal digits, single underscores allowed between digits. The
  interpreter's limit on the number of digits of such a text is not part of the model.
\<close>

definition int_of_text :: "string \<Rightarrow> error + int" where
  "int_of_text s =
     (let (neg, body) = split_sign (strip_ws s) in
      case remove_underscores body of
        None \<Rightarrow> Inl ValueError
      | Some ds \<Rightarrow>
          if ds = [] \<or> \<not> list_all is_digit ds then Inl ValueError
          else Inr (if neg then - int (digits_val ds) else int (digits_val ds)))"

fun py_int :: "pyval \<Rightarrow> error + int" where
  "py_int (PyInt i) = Inr i"
| "py_int (PyStr s) = int_of_text s"

section \<open>The table: \<^verbatim>\<open>Product.create\<close>, \<^verbatim>\<open>Product.get\<close>, \<^verbatim>\<open>save\<close>\<close>

text \<open>An \<^verbatim>\<open>IntegerField\<close> is a 64-bit column: a larger \<^verbatim>\<open>int\<close> cannot be bound.\<close>

definition in_int64 :: "int \<Rightarrow> bool" where
  "in_int64 v \<longleftrightarrow> - (2 ^ 63) \<le> v \<and> v < 2 ^ 63"

text \<open>The \<^verbatim>\<open>AutoField\<close>: a new row gets the largest id in the table plus one.\<close>

definition next_id :: "table \<Rightarrow> nat" where
  "next_id tb = Suc (fold max (map product_id tb) 0)"

text \<open>
  \<^verbatim>\<open>Product.create\<close>: the insert fails with \<^verbatim>\<open>IntegrityError\<close> when the name is taken
  (\<^verbatim>\<open>unique=True\<close>, line 17).
\<close>

definition Product_create :: "string \<Rightarrow> int \<Rightarrow> int \<Rightarrow> datetime \<Rightarrow> table \<Rightarrow> error + table" where
  "Product_create n q p d tb =
     (if \<not> in_int64 q \<or> \<not> in_int64 p then Inl OverflowError
      else if n \<in> set (map product_name tb) then Inl IntegrityError
      else Inr (tb @ [\<lparr>product_id = next_id tb, product_name = n, product_quantity = q,
                       product_price = p, date_updated = d\<rparr>]))"

text \<open>\<^verbatim>\<open>Product.get(Product.product_name == n)\<close>.\<close>

definition Product_get :: "string \<Rightarrow> table \<Rightarrow> error + Product" where
  "Product_get n tb =
     (case find (\<lambda>r. product_name r = n) tb of None \<Rightarrow> Inl DoesNotExist | Some r \<Rightarrow> Inr r)"

text \<open>\<^verbatim>\<open>instance.save()\<close> of a fetched row: every column of the row with its id is rewritten.\<close>

definition Product_save :: "Product \<Rightarrow> table \<Rightarrow> error + table" where
  "Product_save p tb =
     (if \<not> in_int64 (product_quantity p) \<or> \<not> in_int64 (product_price p) then Inl OverflowError
      else if \<exists>r \<in> set tb. product_id r \<noteq> product_id p \<and> product_name r = product_name p
        then Inl IntegrityError
      else Inr (map (\<lambda>r. if product_id r = product_id p then p else r) tb))"

section \<open>\<^verbatim>\<open>add_entry\<close>, \<^verbatim>\<open>update_duplicate\<close> and the reconciliation of \<^verbatim>\<open>add_csv\<close>\<close>

text \<open>Lines 32-37. The quantity is converted before the insert is attempted.\<close>

definition add_entry :: "entry \<Rightarrow> table \<Rightarrow> error + table" where
  "add_entry dictionary tb =
     (case py_int (d_product_quantity dictionary) of
        Inl e \<Rightarrow> Inl e
      | Inr q \<Rightarrow> Product_create (d_product_name dictionary) q (d_product_price dictionary)
                  (d_date_updated dictionary) tb)"

text \<open>Lines 40-44.\<close>

definition update_duplicate :: "entry \<Rightarrow> Product \<Rightarrow> table \<Rightarrow> error + table" where
  "update_duplicate dictionary existing_product tb =
     (case py_int (d_product_quantity dictionary) of
        Inl e \<Rightarrow> Inl e
      | Inr q \<Rightarrow> Product_save (existing_product\<lparr>product_quantity := q,
                                 product_price := d_product_price dictionary,
                                 date_updated := d_date_updated dictionary\<rparr>) tb)"

text \<open>
  Lines 54-61, the \<^verbatim>\<open>try\<close> of \<^verbatim>\<open>add_csv\<close>: only \<^verbatim>\<open>IntegrityError\<close> is caught, every
  other exception leaves the function.
\<close>

definition reconcile :: "entry \<Rightarrow> table \<Rightarrow> error + table" where
  "reconcile row tb =
     (case add_entry row tb of
        Inr tb' \<Rightarrow> Inr tb'
      | Inl e \<Rightarrow>
          if e = IntegrityError then
            (case Product_get (d_product_name row) tb of
               Inl e' \<Rightarrow> Inl e'
             | Inr existing_product \<Rightarrow>
                 if dt_ge (d_date_updated row) (date_updated existing_product)
                 then update_duplicate row existing_product tb
                 else Inr tb)
          else Inl e)"

text \<open>
  What the table guarantees by its schema: the primary key and the name are unique, ids
  grow along the rows, and the integer columns hold 64-bit values.
\<close>

definition wf_table :: "table \<Rightarrow> bool" where
  "wf_table tb \<longleftrightarrow>
     distinct (map product_name tb) \<and> sorted_wrt (<) (map product_id tb)
     \<and> list_all (\<lambda>r. in_int64 (product_quantity r) \<and> in_int64 (product_price r)) tb"


section \<open>Python's \<^verbatim>\<open>float\<close>: binary64 values, rounded to nearest, ties to even\<close>

text \<open>
  A float is a rational (every finite binary64 value is one), an infinity with its sign
  (\<open>True\<close> for minus), or a NaN. The sign of a zero is not kept: no result below depends on it.
\<close>

datatype pyfloat = Finite rat | Infinite bool | NaN

definition round_half_even :: "rat \<Rightarrow> int" where
  "round_half_even q =
     (let f = \<lfloor>q\<rfloor>; r = q - of_int f in
      if r < 1 / 2 then f else if 1 / 2 < r then f + 1 else if even f then f else f + 1)"

text \<open>\<open>\<lfloor>log\<^sub>2 q\<rfloor>\<close> for \<open>1 \<le> q\<close>, by halving.\<close>

function log2_ge1 :: "rat \<Rightarrow> int" where
  "log2_ge1 q = (if q < 2 then 0 else 1 + log2_ge1 (q / 2))"
  by pat_completeness auto
termination
proof (relation "measure (\<lambda>q. nat \<lfloor>q\<rfloor>)")
  show "wf (measure (\<lambda>q::rat. nat \<lfloor>q\<rfloor>))" by simp
next
  fix q :: rat
  assume "\<not> q < 2"
  then have "\<lfloor>q / 2\<rfloor> < \<lfloor>q\<rfloor>" "0 < \<lfloor>q\<rfloor>"
    by linarith+
  then show "(q / 2, q) \<in> measure (\<lambda>q. nat \<lfloor>q\<rfloor>)"
    by simp
qed

declare log2_ge1.simps [simp del]

text \<open>\<open>\<lfloor>log\<^sub>2 q\<rfloor>\<close> for \<open>0 < q\<close>.\<close>

definition ilog2 :: "rat \<Rightarrow> int" where
  "ilog2 q =
     (if 1 \<le> q then log2_ge1 q
      else let l = log2_ge1 (1 / q) in if 2 powi (- l) \<le> q then - l else - l - 1)"

text \<open>
  The nearest binary64 value: 53 significant bits, the smallest exponent that of the
  subnormals, and an infinity when the rounded value leaves the finite range.
\<close>

definition round_to_double :: "rat \<Rightarrow> pyfloat" where
  "round_to_double q =
     (if q = 0 then Finite 0
      else let k = max (ilog2 \<bar>q\<bar>) (- 1022) - 52;
               r = of_int (round_half_even (\<bar>q\<bar> / 2 powi k)) * 2 powi k
           in if 2 powi 1024 \<le> r then Infinite (q < 0)
              else Finite (if q < 0 then - r else r))"

definition float_mul :: "pyfloat \<Rightarrow> pyfloat \<Rightarrow> pyfloat" where
  "float_mul x y =
     (case (x, y) of
        (Finite a, Finite b) \<Rightarrow> round_to_double (a * b)
      | (Finite a, Infinite s) \<Rightarrow> if a = 0 then NaN else Infinite (s \<noteq> (a < 0))
      | (Infinite s, Finite b) \<Rightarrow> if b = 0 then NaN else Infinite (s \<noteq> (b < 0))
      | (Infinite s, Infinite t) \<Rightarrow> Infinite (s \<noteq> t)
      | _ \<Rightarrow> NaN)"

text \<open>\<^verbatim>\<open>round(x)\<close> of a float: to the nearest \<^verbatim>\<open>int\<close>, ties to even.\<close>

definition py_round :: "pyfloat \<Rightarrow> error + int" where
  "py_round x =
     (case x of
        Finite q \<Rightarrow> Inr (round_half_even q)
      | Infinite s \<Rightarrow> Inl OverflowError
      | NaN \<Rightarrow> Inl ValueError)"

text \<open>The conversion of an \<^verbatim>\<open>int\<close> operand in \<^verbatim>\<open>int * float\<close>.\<close>

definition float_of_int :: "int \<Rightarrow> error + pyfloat" where
  "float_of_int i =
     (case round_to_double (of_int i) of
        Infinite s \<Rightarrow> Inl OverflowError
      | x \<Rightarrow> Inr x)"

subsection \<open>\<^verbatim>\<open>float\<close> on a text\<close>

definition to_lower :: "char \<Rightarrow> char" where
  "to_lower c =
     (if 65 \<le> (of_char c :: nat) \<and> (of_char c :: nat) \<le> 90 then char_of (of_char c + 32 :: nat)
      else c)"

text \<open>The exponent part: nothing, or \<^verbatim>\<open>e\<close>, an optional sign and digits.\<close>

definition exponent_of_text :: "string \<Rightarrow> int option" where
  "exponent_of_text s =
     (case s of
        [] \<Rightarrow> Some 0
      | c # cs \<Rightarrow>
          if c = CHR ''e'' \<or> c = CHR ''E'' then
            (let (neg, ds) = split_sign cs in
             if ds = [] \<or> \<not> list_all is_digit ds then None
             else Some (if neg then - int (digits_val ds) else int (digits_val ds)))
          else None)"

text \<open>An unsigned decimal: digits, an optional point and digits, an optional exponent.\<close>

definition decimal_of_text :: "string \<Rightarrow> rat option" where
  "decimal_of_text s =
     (let ip = takeWhile is_digit s;
          r1 = dropWhile is_digit s;
          has_point = (r1 \<noteq> [] \<and> hd r1 = CHR ''.'');
          fp = (if has_point then takeWhile is_digit (tl r1) else []);
          r2 = (if has_point then dropWhile is_digit (tl r1) else r1)
      in if ip = [] \<and> fp = [] then None
         else case exponent_of_text r2 of
                None \<Rightarrow> None
              | Some e \<Rightarrow> Some (of_nat (digits_val (ip @ fp)) * 10 powi (e - int (length fp))))"

definition float_of_text :: "string \<Rightarrow> error + pyfloat" where
  "float_of_text s =
     (case remove_underscores s of
        None \<Rightarrow> Inl ValueError
      | Some t \<Rightarrow>
          let (neg, body) = split_sign (strip_ws t) in
          if map to_lower body = ''inf'' \<or> map to_lower body = ''infinity'' then Inr (Infinite neg)
          else if map to_lower body = ''nan'' then Inr NaN
          else (case decimal_of_text body of
                  None \<Rightarrow> Inl ValueError
                | Some q \<Rightarrow> Inr (round_to_double (if neg then - q else q))))"

section \<open>Prices\<close>

text \<open>\<^verbatim>\<open>s.strip('$')\<close>.\<close>

definition strip_dollar :: "string \<Rightarrow> string" where
  "strip_dollar s =
     rev (dropWhile (\<lambda>c. c = CHR ''$'') (rev (dropWhile (\<lambda>c. c = CHR ''$'') s)))"

text \<open>Lines 53 and 148: \<^verbatim>\<open>round(float(s.strip('$'))*100)\<close>.\<close>

definition price_of_text :: "string \<Rightarrow> error + int" where
  "price_of_text s =
     (case float_of_text (strip_dollar s) of
        Inl e \<Rightarrow> Inl e
      | Inr x \<Rightarrow> py_round (float_mul x (Finite 100)))"

text \<open>
  The number of cents that a price text denotes exactly, when its whole part is the digits
  \<open>ip\<close> and its decimals are the at most two digits \<open>fp\<close>: the value the specification
  asks the conversion to return.
\<close>

definition exact_cents :: "string \<Rightarrow> string \<Rightarrow> nat" where
  "exact_cents ip fp = digits_val ip * 100 + digits_val fp * 10 ^ (2 - length fp)"

text \<open>
  Lines 125-130. \<^verbatim>\<open>string.index(".")\<close> raises \<^verbatim>\<open>ValueError\<close> when there is no point;
  \<^verbatim>\<open>string[index:]\<close> is the text from the first point on.
\<close>

definition decimal_check :: "string \<Rightarrow> error + bool" where
  "decimal_check string =
     (if CHR ''.'' \<notin> set string then Inl ValueError
      else if length (dropWhile (\<lambda>c. c \<noteq> CHR ''.'') string) > 3 then Inr False
      else Inr True)"

text \<open>Lines 145-148: what one answer to the price prompt gives inside the \<^verbatim>\<open>try\<close>.\<close>

definition price_attempt :: "string \<Rightarrow> error + int" where
  "price_attempt s =
     (case decimal_check s of
        Inl e \<Rightarrow> Inl e
      | Inr ok \<Rightarrow> if \<not> ok then Inl InputError else price_of_text s)"

text \<open>
  Lines 143-153, the price loop over the answers typed: \<^verbatim>\<open>ValueError\<close> and
  \<^verbatim>\<open>InputError\<close> are caught and the prompt is repeated with the next answer; any other
  exception leaves the loop; the end of the input is \<^verbatim>\<open>EOFError\<close>. The result carries
  the answers not yet read.
\<close>

fun prompt_price :: "string list \<Rightarrow> (error + int) \<times> string list" where
  "prompt_price [] = (Inl EOFError, [])"
| "prompt_price (s # rest) =
     (case price_attempt s of
        Inr p \<Rightarrow> (Inr p, rest)
      | Inl e \<Rightarrow> if e = ValueError \<or> e = InputError then prompt_price rest else (Inl e, rest))"

section \<open>Dates\<close>

definition month_of_text :: "string \<Rightarrow> nat option" where
  "month_of_text s =
     (case s of
        [a] \<Rightarrow> if is_digit a \<and> a \<noteq> CHR ''0'' then Some (digit_val a) else None
      | [a, b] \<Rightarrow>
          if a = CHR ''1'' \<and> (b = CHR ''0'' \<or> b = CHR ''1'' \<or> b = CHR ''2'')
            then Some (10 + digit_val b)
          else if a = CHR ''0'' \<and> is_digit b \<and> b \<noteq> CHR ''0'' then Some (digit_val b)
          else None
      | _ \<Rightarrow> None)"

definition day_of_text :: "string \<Rightarrow> nat option" where
  "day_of_text s =
     (case s of
        [a] \<Rightarrow> if is_digit a \<and> a \<noteq> CHR ''0'' then Some (digit_val a) else None
      | [a, b] \<Rightarrow>
          if a = CHR ''3'' \<and> (b = CHR ''0'' \<or> b = CHR ''1'') then Some (30 + digit_val b)
          else if (a = CHR ''1'' \<or> a = CHR ''2'') \<and> is_digit b
            then Some (10 * digit_val a + digit_val b)
          else if (a = CHR ''0'' \<or> a = CHR '' '') \<and> is_digit b \<and> b \<noteq> CHR ''0''
            then Some (digit_val b)
          else None
      | _ \<Rightarrow> None)"

definition year_of_text :: "string \<Rightarrow> nat option" where
  "year_of_text s = (if length s = 4 \<and> list_all is_digit s then Some (digits_val s) else None)"

definition is_leap :: "nat \<Rightarrow> bool" where
  "is_leap y \<longleftrightarrow> y mod 4 = 0 \<and> (y mod 100 \<noteq> 0 \<or> y mod 400 = 0)"

definition days_in_month :: "nat \<Rightarrow> nat \<Rightarrow> nat" where
  "days_in_month y m =
     (if m = 2 then (if is_leap y then 29 else 28)
      else if m = 4 \<or> m = 6 \<or> m = 9 \<or> m = 11 then 30 else 31)"

text \<open>
  \<^verbatim>\<open>datetime.datetime.strptime(s, '%m/%d/%Y')\<close>: month, day and a year of four digits
  between slashes, nothing before or after, and the date must exist.
\<close>

definition strptime :: "string \<Rightarrow> error + datetime" where
  "strptime s =
     (let ms = takeWhile (\<lambda>c. c \<noteq> CHR ''/'') s;
          r1 = dropWhile (\<lambda>c. c \<noteq> CHR ''/'') s;
          ds = takeWhile (\<lambda>c. c \<noteq> CHR ''/'') (tl r1);
          r2 = dropWhile (\<lambda>c. c \<noteq> CHR ''/'') (tl r1)
      in if r1 = [] \<or> r2 = [] then Inl ValueError
         else case (month_of_text ms, day_of_text ds, year_of_text (tl r2)) of
                (Some m, Some d, Some y) \<Rightarrow>
                  if y = 0 \<or> days_in_month y m < d then Inl ValueError
                  else Inr (datetime_ymd y m d)
              | _ \<Rightarrow> Inl ValueError)"

definition digit_char :: "nat \<Rightarrow> char" where
  "digit_char d = char_of (48 + d)"

text \<open>The decimal digits of a natural number, as \<^verbatim>\<open>str\<close> writes them.\<close>

fun digits_of :: "nat \<Rightarrow> string" where
  "digits_of n = (if n < 10 then [digit_char n] else digits_of (n div 10) @ [digit_char (n mod 10)])"

declare digits_of.simps [simp del]

definition two_digits :: "nat \<Rightarrow> string" where
  "two_digits n = [digit_char (n div 10 mod 10), digit_char (n mod 10)]"

text \<open>
  \<^verbatim>\<open>d.strftime('%m/%d/%Y')\<close>. The C library decides whether \<^verbatim>\<open>%Y\<close> pads a year below
  1000 with zeros; \<open>pad\<close> says which it does.
\<close>

definition strftime :: "bool \<Rightarrow> datetime \<Rightarrow> string" where
  "strftime pad d =
     two_digits (month d) @ ''/'' @ two_digits (day d) @ ''/''
     @ (if pad then replicate (4 - length (digits_of (year d))) (CHR ''0'') else [])
     @ digits_of (year d)"

text \<open>What the \<^verbatim>\<open>datetime\<close> type admits.\<close>

definition valid_datetime :: "datetime \<Rightarrow> bool" where
  "valid_datetime d \<longleftrightarrow>
     1 \<le> year d \<and> year d \<le> 9999 \<and> 1 \<le> month d \<and> month d \<le> 12
     \<and> 1 \<le> day d \<and> day d \<le> days_in_month (year d) (month d)
     \<and> hour d < 24 \<and> minute d < 60 \<and> second d < 60 \<and> microsecond d < 1000000"

section \<open>\<^verbatim>\<open>add_csv\<close>\<close>

text \<open>Lines 52-53: the date, then the price; the quantity stays a text.\<close>

definition csv_entry :: "csv_row \<Rightarrow> error + entry" where
  "csv_entry row =
     (case strptime (c_date_updated row) of
        Inl e \<Rightarrow> Inl e
      | Inr d \<Rightarrow>
          (case price_of_text (c_product_price row) of
             Inl e \<Rightarrow> Inl e
           | Inr p \<Rightarrow> Inr \<lparr>d_product_name = c_product_name row,
                           d_product_quantity = PyStr (c_product_quantity row),
                           d_product_price = p, d_date_updated = d\<rparr>))"

text \<open>
  Lines 51-61, the loop over the rows. An exception that is not caught ends the loop:
  the result is the table as the rows before left it, and the exception.
\<close>

fun add_csv :: "csv_row list \<Rightarrow> table \<Rightarrow> table \<times> error option" where
  "add_csv [] tb = (tb, None)"
| "add_csv (row # rows) tb =
     (case csv_entry row of
        Inl e \<Rightarrow> (tb, Some e)
      | Inr d \<Rightarrow>
          (case reconcile d tb of
             Inl e \<Rightarrow> (tb, Some e)
           | Inr tb' \<Rightarrow> add_csv rows tb'))"

section \<open>\<^verbatim>\<open>add_new_product\<close>\<close>

text \<open>
  Lines 172-184: the answers to the question whether to update, read until one is
  \<^verbatim>\<open>y\<close> or \<^verbatim>\<open>n\<close> in either case.
\<close>

fun confirm_update :: "string list \<Rightarrow> error + bool" where
  "confirm_update [] = Inl EOFError"
| "confirm_update (a # rest) =
     (if map to_lower a = ''y'' then Inr True
      else if map to_lower a = ''n'' then Inr False
      else confirm_update rest)"

text \<open>
  Lines 160-187: the details are complete, \<open>now\<close> is the clock. The entry is dated at
  midnight; a taken name leads to an update only when the entry is not older and the user
  agrees.
\<close>

definition store_new_product :: "string \<Rightarrow> int \<Rightarrow> int \<Rightarrow> datetime \<Rightarrow> string list \<Rightarrow> table \<Rightarrow> error + table" where
  "store_new_product name price quantity now answers tb =
     (let new_product_details =
            \<lparr>d_product_name = name, d_product_quantity = PyInt quantity,
             d_product_price = price, d_date_updated = midnight now\<rparr>
      in case add_entry new_product_details tb of
           Inr tb' \<Rightarrow> Inr tb'
         | Inl e \<Rightarrow>
             if e = IntegrityError then
               (case Product_get name tb of
                  Inl e' \<Rightarrow> Inl e'
                | Inr existing_product \<Rightarrow>
                    if dt_ge (d_date_updated new_product_details) (date_updated existing_product)
                    then (case confirm_update answers of
                            Inl e' \<Rightarrow> Inl e'
                          | Inr update \<Rightarrow>
                              if update then update_duplicate new_product_details existing_product tb
                              else Inr tb)
                    else Inr tb)
             else Inl e)"

section \<open>\<^verbatim>\<open>backup_database\<close>\<close>

text \<open>\<^verbatim>\<open>str\<close> of an \<^verbatim>\<open>int\<close>, as the CSV writer renders the quantity.\<close>

definition str_int :: "int \<Rightarrow> string" where
  "str_int i = (if i < 0 then CHR ''-'' # digits_of (nat (- i)) else digits_of (nat i))"

text \<open>\<^verbatim>\<open>"%.2f" % x\<close>: the float's exact value rounded to two decimals, ties to even.\<close>

definition format_2f :: "pyfloat \<Rightarrow> string" where
  "format_2f x =
     (case x of
        Finite q \<Rightarrow>
          (let r = nat (round_half_even (\<bar>q\<bar> * 100)) in
           (if q < 0 then ''-'' else []) @ digits_of (r div 100) @ ''.'' @ two_digits (r mod 100))
      | Infinite s \<Rightarrow> (if s then ''-inf'' else ''inf'')
      | NaN \<Rightarrow> ''nan'')"

text \<open>Line 209: \<^verbatim>\<open>"$%.2f" % float(product.product_price * .01)\<close>.\<close>

definition price_text :: "int \<Rightarrow> error + string" where
  "price_text p =
     (case float_of_int p of
        Inl e \<Rightarrow> Inl e
      | Inr x \<Rightarrow> Inr (CHR ''$'' # format_2f (float_mul x (round_to_double (1 / 100)))))"

definition fieldnames :: "string list" where
  "fieldnames = [''product_name'', ''product_price'', ''product_quantity'', ''date_updated'']"

text \<open>Lines 207-212: the dictionary written for one product.\<close>

definition backup_row :: "bool \<Rightarrow> Product \<Rightarrow> error + csv_row" where
  "backup_row pad product =
     (case price_text (product_price product) of
        Inl e \<Rightarrow> Inl e
      | Inr pt \<Rightarrow> Inr \<lparr>c_product_name = product_name product,
                       c_product_quantity = str_int (product_quantity product),
                       c_product_price = pt,
                       c_date_updated = strftime pad (date_updated product)\<rparr>)"

text \<open>Lines 206-212: one \<^verbatim>\<open>writerow\<close> per product of \<^verbatim>\<open>Product.select()\<close>, in its order.\<close>

fun backup_rows :: "bool \<Rightarrow> table \<Rightarrow> error + csv_row list" where
  "backup_rows pad [] = Inr []"
| "backup_rows pad (product # tb) =
     (case backup_row pad product of
        Inl e \<Rightarrow> Inl e
      | Inr r \<Rightarrow> (case backup_rows pad tb of Inl e \<Rightarrow> Inl e | Inr rs \<Rightarrow> Inr (r # rs)))"

text \<open>Lines 197-212: the header, then the rows.\<close>

definition backup_database :: "bool \<Rightarrow> table \<Rightarrow> error + string list \<times> csv_row list" where
  "backup_database pad tb =
     (case backup_rows pad tb of Inl e \<Rightarrow> Inl e | Inr rs \<Rightarrow> Inr (fieldnames, rs))"


section \<open>Properties of the table operations\<close>

lemma find_unique:
  "distinct (map f xs) \<Longrightarrow> x \<in> set xs \<Longrightarrow> find (\<lambda>r. f r = f x) xs = Some x"
  by (induction xs) (auto simp: image_iff)

lemma Product_get_existing:
  assumes "wf_table tb" "existing \<in> set tb"
  shows "Product_get (product_name existing) tb = Inr existing"
  using assms find_unique [of product_name tb existing]
  by (simp add: Product_get_def wf_table_def)

lemma name_determines_row:
  assumes "wf_table tb" "r \<in> set tb" "r' \<in> set tb" "product_name r = product_name r'"
  shows "r = r'"
  using assms by (auto simp: wf_table_def distinct_map inj_on_def)

lemma id_determines_row:
  assumes "wf_table tb" "r \<in> set tb" "r' \<in> set tb" "product_id r = product_id r'"
  shows "r = r'"
proof -
  from assms(1) have "distinct (map product_id tb)"
    by (simp add: wf_table_def strict_sorted_iff)
  with assms(2-4) show ?thesis
    by (auto simp: distinct_map inj_on_def)
qed

lemma Product_create_taken:
  assumes "in_int64 q" "in_int64 p" "n \<in> set (map product_name tb)"
  shows "Product_create n q p d tb = Inl IntegrityError"
  using assms by (simp add: Product_create_def)

lemma Product_save_existing:
  assumes "wf_table tb" "existing \<in> set tb" "in_int64 q" "in_int64 p"
  shows "Product_save (existing\<lparr>product_quantity := q, product_price := p, date_updated := d\<rparr>) tb
         = Inr (map (\<lambda>r. if r = existing
                            then r\<lparr>product_quantity := q, product_price := p, date_updated := d\<rparr>
                            else r) tb)"
proof -
  have no_clash: "\<not> (\<exists>r \<in> set tb. product_id r \<noteq> product_id existing
                       \<and> product_name r = product_name existing)"
    using name_determines_row [OF assms(1) _ assms(2)] by blast
  have same: "map (\<lambda>r. if product_id r = product_id existing
                          then existing\<lparr>product_quantity := q, product_price := p, date_updated := d\<rparr>
                          else r) tb
              = map (\<lambda>r. if r = existing
                            then r\<lparr>product_quantity := q, product_price := p, date_updated := d\<rparr>
                            else r) tb"
    using id_determines_row [OF assms(1) _ assms(2)] by (intro map_cong) auto
  show ?thesis
    using no_clash same assms(3,4) by (simp add: Product_save_def)
qed

lemma reconcile_duplicate:
  assumes "wf_table tb" "existing \<in> set tb"
    and "d_product_name row = product_name existing"
    and "py_int (d_product_quantity row) = Inr q"
    and "in_int64 q" "in_int64 (d_product_price row)"
  shows "reconcile row tb =
           (if dt_ge (d_date_updated row) (date_updated existing)
            then Inr (map (\<lambda>r. if r = existing
                                 then r\<lparr>product_quantity := q,
                                        product_price := d_product_price row,
                                        date_updated := d_date_updated row\<rparr>
                                 else r) tb)
            else Inr tb)"
proof -
  have "add_entry row tb = Inl IntegrityError"
    using assms by (simp add: add_entry_def Product_create_taken)
  moreover have "Product_get (d_product_name row) tb = Inr existing"
    using assms Product_get_existing by simp
  moreover have "update_duplicate row existing tb
      = Inr (map (\<lambda>r. if r = existing
                        then r\<lparr>product_quantity := q, product_price := d_product_price row,
                               date_updated := d_date_updated row\<rparr>
                        else r) tb)"
    using assms by (simp add: update_duplicate_def Product_save_existing)
  ultimately show ?thesis
    by (simp add: reconcile_def)
qed


lemma fold_max_ge: "(m::nat) \<le> fold max xs m"
  by (induction xs arbitrary: m) (auto intro: order_trans [OF max.cobounded2])

lemma fold_max_mem: "x \<in> set xs \<Longrightarrow> (x::nat) \<le> fold max xs m"
proof (induction xs arbitrary: m)
  case Nil
  then show ?case by simp
next
  case (Cons a xs)
  show ?case
  proof (cases "x = a")
    case True
    have "a \<le> max a m" by simp
    also have "\<dots> \<le> fold max xs (max a m)" by (rule fold_max_ge)
    finally show ?thesis using True by simp
  next
    case False
    with Cons show ?thesis by simp
  qed
qed

lemma next_id_fresh: "r \<in> set tb \<Longrightarrow> product_id r < next_id tb"
  using fold_max_mem [of "product_id r" "map product_id tb" 0]
  by (simp add: next_id_def less_Suc_eq_le)

lemma wf_table_create:
  assumes "wf_table tb" "Product_create n q p d tb = Inr tb'"
  shows "wf_table tb'"
proof -
  from assms(2) have ok: "in_int64 q" "in_int64 p" "n \<notin> set (map product_name tb)"
    and tb': "tb' = tb @ [\<lparr>product_id = next_id tb, product_name = n, product_quantity = q,
                           product_price = p, date_updated = d\<rparr>]"
    by (auto simp: Product_create_def split: if_splits)
  show ?thesis
    using assms(1) ok next_id_fresh [of _ tb]
    by (auto simp: wf_table_def tb' sorted_wrt_append)
qed

lemma wf_table_save:
  assumes "wf_table tb" "Product_save p tb = Inr tb'"
  shows "wf_table tb'"
proof -
  let ?f = "\<lambda>r. if product_id r = product_id p then p else r"
  from assms(2) have ok: "in_int64 (product_quantity p)" "in_int64 (product_price p)"
    and no_clash: "\<forall>r \<in> set tb. product_id r \<noteq> product_id p \<longrightarrow> product_name r \<noteq> product_name p"
    and tb': "tb' = map ?f tb"
    by (auto simp: Product_save_def split: if_splits)
  have ids: "map product_id tb' = map product_id tb"
    by (simp add: tb')
  have dist_id: "distinct (map product_id tb)"
    using assms(1) by (simp add: wf_table_def strict_sorted_iff)
  have "inj_on product_name (set tb)" "distinct tb"
    using assms(1) by (simp_all add: wf_table_def distinct_map)
  have "inj_on (\<lambda>r. product_name (?f r)) (set tb)"
  proof (rule inj_onI)
    fix x y
    assume xy: "x \<in> set tb" "y \<in> set tb" "product_name (?f x) = product_name (?f y)"
    show "x = y"
    proof (cases "product_id x = product_id p")
      case True
      note xp = this
      show ?thesis
      proof (cases "product_id y = product_id p")
        case True
        with xp dist_id xy(1,2) show ?thesis
          by (auto simp: distinct_map inj_on_def)
      next
        case False
        with xp xy no_clash show ?thesis by auto
      qed
    next
      case False
      note xp = this
      show ?thesis
      proof (cases "product_id y = product_id p")
        case True
        with xp xy no_clash show ?thesis by auto
      next
        case False
        with xp xy \<open>inj_on product_name (set tb)\<close> show ?thesis
          by (auto simp: inj_on_def)
      qed
    qed
  qed
  then have "distinct (map product_name tb')"
    using \<open>distinct tb\<close> by (simp add: tb' distinct_map comp_def)
  moreover have "sorted_wrt (<) (map product_id tb')"
    using assms(1) ids by (simp add: wf_table_def)
  moreover have "list_all (\<lambda>r. in_int64 (product_quantity r) \<and> in_int64 (product_price r)) tb'"
    using assms(1) ok by (auto simp: wf_table_def tb' list_all_iff)
  ultimately show ?thesis
    by (simp add: wf_table_def)
qed

lemma wf_table_add_entry:
  "wf_table tb \<Longrightarrow> add_entry d tb = Inr tb' \<Longrightarrow> wf_table tb'"
  by (auto simp: add_entry_def split: sum.splits dest: wf_table_create)

lemma wf_table_update_duplicate:
  "wf_table tb \<Longrightarrow> update_duplicate d existing tb = Inr tb' \<Longrightarrow> wf_table tb'"
  by (auto simp: update_duplicate_def split: sum.splits dest: wf_table_save)

lemma wf_table_reconcile:
  "wf_table tb \<Longrightarrow> reconcile d tb = Inr tb' \<Longrightarrow> wf_table tb'"
  by (auto simp: reconcile_def split: sum.splits if_splits
      dest: wf_table_add_entry wf_table_update_duplicate)

lemma wf_table_add_csv: "wf_table tb \<Longrightarrow> wf_table (fst (add_csv rows tb))"
proof (induction rows arbitrary: tb)
  case Nil
  then show ?case by simp
next
  case (Cons row rows)
  then show ?case
    by (auto split: sum.splits dest: wf_table_reconcile)
qed

lemma wf_table_store_new_product:
  "wf_table tb \<Longrightarrow> store_new_product n p q now answers tb = Inr tb' \<Longrightarrow> wf_table tb'"
  by (auto simp: store_new_product_def Let_def split: sum.splits if_splits
      dest: wf_table_add_entry wf_table_update_duplicate)

section \<open>Properties of the rounding\<close>

lemma round_half_even_bound: "\<bar>of_int (round_half_even q) - q\<bar> \<le> 1 / 2"
proof -
  have "of_int \<lfloor>q\<rfloor> \<le> q" "q < of_int \<lfloor>q\<rfloor> + 1" by linarith+
  then show ?thesis
    unfolding round_half_even_def Let_def by (simp split: if_splits)
qed

lemma round_half_even_unique:
  assumes "\<bar>of_int n - q\<bar> < 1 / 2"
  shows "round_half_even q = n"
proof -
  from assms have "\<lfloor>q\<rfloor> = n \<or> \<lfloor>q\<rfloor> = n - 1" by linarith
  with assms show ?thesis
    unfolding round_half_even_def Let_def by (auto; linarith)
qed

lemma round_half_even_of_int [simp]: "round_half_even (of_int n) = n"
  by (rule round_half_even_unique) simp

lemma round_half_even_tie:
  assumes "q = of_int n + 1 / 2" "even n"
  shows "round_half_even q = n"
proof -
  from assms(1) have "\<lfloor>q\<rfloor> = n" by linarith
  with assms show ?thesis
    unfolding round_half_even_def Let_def by simp
qed

lemma log2_ge1_spec:
  "1 \<le> q \<Longrightarrow> 0 \<le> log2_ge1 q \<and> 2 powi (log2_ge1 q) \<le> q \<and> q < 2 powi (log2_ge1 q + 1)"
proof (induction q rule: log2_ge1.induct)
  case (1 q)
  show ?case
  proof (cases "q < 2")
    case True
    with "1.prems" show ?thesis
      by (simp add: log2_ge1.simps [of q])
  next
    case False
    then have "1 \<le> q / 2" by simp
    with "1.IH" False have ih: "0 \<le> log2_ge1 (q / 2)" "2 powi (log2_ge1 (q / 2)) \<le> q / 2"
      "q / 2 < 2 powi (log2_ge1 (q / 2) + 1)"
      by simp_all
    have eq: "log2_ge1 q = 1 + log2_ge1 (q / 2)"
      using False by (simp add: log2_ge1.simps [of q])
    have "(2::rat) powi (1 + log2_ge1 (q / 2)) = 2 * 2 powi (log2_ge1 (q / 2))"
      by (simp add: power_int_add)
    moreover have "(2::rat) powi (1 + log2_ge1 (q / 2) + 1) = 2 * 2 powi (log2_ge1 (q / 2) + 1)"
      by (simp add: power_int_add)
    ultimately show ?thesis
      using ih eq by simp
  qed
qed

lemma ilog2_spec:
  assumes "0 < q"
  shows "2 powi (ilog2 q) \<le> q \<and> q < 2 powi (ilog2 q + 1)"
proof (cases "1 \<le> q")
  case True
  then show ?thesis
    using log2_ge1_spec [of q] by (simp add: ilog2_def)
next
  case False
  define l where "l = log2_ge1 (1 / q)"
  from False assms have "1 \<le> 1 / q" by simp
  from log2_ge1_spec [OF this] have l: "2 powi l \<le> 1 / q" "1 / q < 2 powi (l + 1)"
    by (simp_all add: l_def)
  have pos: "(0::rat) < 2 powi l" "(0::rat) < 2 powi (l + 1)" by simp_all
  from l(1) assms pos have up: "q \<le> 2 powi (- l)"
    by (simp add: power_int_minus field_simps)
  from l(2) assms pos have lo: "2 powi (- l - 1) < q"
    by (simp add: power_int_minus power_int_diff power_int_add field_simps)
  show ?thesis
  proof (cases "2 powi (- l) \<le> q")
    case True
    then have "ilog2 q = - l"
      using False by (simp add: ilog2_def l_def Let_def)
    moreover have "(2::rat) powi (- l) < 2 powi (- l + 1)"
      by (rule power_int_strict_increasing) simp_all
    ultimately show ?thesis using True up by simp
  next
    case neg: False
    then have "ilog2 q = - l - 1"
      using False by (simp add: ilog2_def l_def Let_def)
    then show ?thesis using neg lo by simp
  qed
qed

lemma ilog2_unique:
  assumes "2 powi e \<le> q" "q < 2 powi (e + 1)"
  shows "ilog2 q = e"
proof -
  have "(0::rat) < 2 powi e" by simp
  with assms have "0 < q" by linarith
  from ilog2_spec [OF this] have s: "2 powi (ilog2 q) \<le> q" "q < 2 powi (ilog2 q + 1)"
    by simp_all
  have "(2::rat) powi e < 2 powi (ilog2 q + 1)" using assms(1) s(2) by linarith
  then have "e < ilog2 q + 1"
    using power_int_increasing [of "ilog2 q + 1" e "2::rat"] by (cases "e < ilog2 q + 1") auto
  moreover have "(2::rat) powi (ilog2 q) < 2 powi (e + 1)" using assms(2) s(1) by linarith
  then have "ilog2 q < e + 1"
    using power_int_increasing [of "e + 1" "ilog2 q" "2::rat"] by (cases "ilog2 q < e + 1") auto
  ultimately show ?thesis by simp
qed


text \<open>The rounding with the exponent known.\<close>

lemma round_to_double_normal:
  assumes "2 powi e \<le> \<bar>q\<bar>" "\<bar>q\<bar> < 2 powi (e + 1)" "- 1022 \<le> e" "e < 1023"
  shows "round_to_double q =
           Finite ((if q < 0 then - 1 else 1)
                   * (of_int (round_half_even (\<bar>q\<bar> / 2 powi (e - 52))) * 2 powi (e - 52)))"
proof -
  have il: "ilog2 \<bar>q\<bar> = e"
    using assms(1,2) by (rule ilog2_unique)
  have "(0::rat) < 2 powi e" by (rule zero_less_power_int) simp
  with assms(1) have "0 < \<bar>q\<bar>" by linarith
  then have nz: "q \<noteq> 0" by simp
  have k: "max (ilog2 \<bar>q\<bar>) (- 1022) - 52 = e - 52"
    using il assms(3) by simp
  define m where "m = round_half_even (\<bar>q\<bar> / 2 powi (e - 52))"
  have pk: "(0::rat) < 2 powi (e - 52)" by simp
  have "\<bar>q\<bar> / 2 powi (e - 52) < 2 powi 53"
  proof -
    have "(2::rat) powi (53 + (e - 52)) = 2 powi 53 * 2 powi (e - 52)"
      by (rule power_int_add) simp
    moreover have "53 + (e - 52) = e + 1" by simp
    ultimately have "(2::rat) powi (e + 1) = 2 powi 53 * 2 powi (e - 52)"
      by (simp only:)
    with assms(2) pk show ?thesis
      by (simp add: pos_divide_less_eq del: power_int_numeral)
  qed
  then have "\<bar>q\<bar> / 2 powi (e - 52) < of_int (2 ^ 53)" by simp
  have mle: "m \<le> 2 ^ 53"
  proof (rule ccontr)
    assume "\<not> m \<le> 2 ^ 53"
    then have "2 ^ 53 + 1 \<le> m" by simp
    then have "(of_int (2 ^ 53 + 1) :: rat) \<le> of_int m" by (simp only: of_int_le_iff)
    moreover have "\<bar>of_int m - \<bar>q\<bar> / 2 powi (e - 52)\<bar> \<le> 1 / 2"
      unfolding m_def by (rule round_half_even_bound)
    ultimately show False
      using \<open>\<bar>q\<bar> / 2 powi (e - 52) < of_int (2 ^ 53)\<close> by simp
  qed
  have "of_int m * 2 powi (e - 52) \<le> (2::rat) powi 53 * 2 powi (e - 52)"
  proof -
    have "(of_int m :: rat) \<le> of_int (2 ^ 53)" using mle by (simp only: of_int_le_iff)
    then have "(of_int m :: rat) \<le> 2 powi 53" by simp
    with pk show ?thesis by (simp del: power_int_numeral)
  qed
  also have "\<dots> = 2 powi (e + 1)"
  proof -
    have "(2::rat) powi (53 + (e - 52)) = 2 powi 53 * 2 powi (e - 52)"
      by (rule power_int_add) simp
    moreover have "53 + (e - 52) = e + 1" by simp
    ultimately show ?thesis by (simp only:)
  qed
  also have "\<dots> < 2 powi 1024"
    using assms(4) by (intro power_int_strict_increasing) simp_all
  finally have fin: "\<not> 2 powi 1024 \<le> of_int m * (2::rat) powi (e - 52)"
    by simp
  show ?thesis
    unfolding round_to_double_def Let_def k
    using nz fin [unfolded m_def] by (cases "q < 0") (simp_all del: power_int_numeral)
qed

lemma round_to_double_of_int:
  assumes "\<bar>n\<bar> \<le> 2 ^ 53"
  shows "round_to_double (of_int n) = Finite (of_int n)"
proof (cases "n = 0")
  case True
  then show ?thesis by (simp add: round_to_double_def)
next
  case False
  define q :: rat where "q = of_int n"
  define e where "e = ilog2 \<bar>q\<bar>"
  have qpos: "0 < \<bar>q\<bar>" "1 \<le> \<bar>q\<bar>" using False by (simp_all add: q_def flip: of_int_abs)
  from ilog2_spec [OF qpos(1)] have e: "2 powi e \<le> \<bar>q\<bar>" "\<bar>q\<bar> < 2 powi (e + 1)"
    by (simp_all add: e_def)
  have e0: "0 \<le> e"
  proof (rule ccontr)
    assume "\<not> 0 \<le> e"
    then have "e + 1 \<le> 0" by simp
    then have "(2::rat) powi (e + 1) \<le> 2 powi 0"
      by (intro power_int_increasing) simp_all
    with e(2) qpos(2) show False by simp
  qed
  have e53: "e \<le> 53"
  proof (rule ccontr)
    assume "\<not> e \<le> 53"
    then have "54 \<le> e" by simp
    then have "(2::rat) powi 54 \<le> 2 powi e"
      by (intro power_int_increasing) simp_all
    moreover have "\<bar>q\<bar> \<le> 2 ^ 53"
      using assms unfolding q_def by (metis of_int_abs of_int_le_iff of_int_numeral of_int_power)
    ultimately show False using e(1) by simp
  qed
  show ?thesis
  proof (cases "e = 53")
    case True
    have "\<bar>q\<bar> \<le> 2 ^ 53"
      using assms unfolding q_def by (metis of_int_abs of_int_le_iff of_int_numeral of_int_power)
    with e(1) True have "\<bar>q\<bar> = 2 ^ 53" by simp
    then have "\<bar>q\<bar> / 2 powi (e - 52) = of_int (2 ^ 52)"
      using True by simp
    then have "round_half_even (\<bar>q\<bar> / 2 powi (e - 52)) = 2 ^ 52"
      by (simp only: round_half_even_of_int)
    then have "round_to_double q = Finite ((if q < 0 then - 1 else 1) * (of_int (2 ^ 52) * 2 powi (e - 52)))"
      using round_to_double_normal [OF e] True by simp
    also have "(of_int (2 ^ 52) * 2 powi (e - 52) :: rat) = \<bar>q\<bar>"
      using True \<open>\<bar>q\<bar> = 2 ^ 53\<close> by simp
    finally show ?thesis
      by (simp add: q_def abs_if split: if_splits)
  next
    case ne: False
    with e53 have e52: "e \<le> 52" by simp
    have "(2::rat) powi (e - 52) = 1 / 2 ^ nat (52 - e)"
      using e52 by (simp add: power_int_def field_simps)
    then have "\<bar>q\<bar> / 2 powi (e - 52) = of_int (\<bar>n\<bar> * 2 ^ nat (52 - e))"
      by (simp add: q_def)
    then have r: "round_half_even (\<bar>q\<bar> / 2 powi (e - 52)) = \<bar>n\<bar> * 2 ^ nat (52 - e)"
      by (simp only: round_half_even_of_int)
    have "round_to_double q = Finite ((if q < 0 then - 1 else 1)
        * (of_int (\<bar>n\<bar> * 2 ^ nat (52 - e)) * 2 powi (e - 52)))"
      using round_to_double_normal [OF e] e0 e52 r by simp
    also have "(of_int (\<bar>n\<bar> * 2 ^ nat (52 - e)) * 2 powi (e - 52) :: rat) = \<bar>q\<bar>"
      using \<open>(2::rat) powi (e - 52) = 1 / 2 ^ nat (52 - e)\<close> by (simp add: q_def)
    finally show ?thesis
      by (simp add: q_def abs_if split: if_splits)
  qed
qed

text \<open>The relative error of one rounding in the normal range.\<close>

lemma round_to_double_error:
  assumes "2 powi (- 1022) \<le> \<bar>q\<bar>" "\<bar>q\<bar> < 2 powi 1023"
  shows "\<exists>r. round_to_double q = Finite r \<and> \<bar>r - q\<bar> \<le> \<bar>q\<bar> / 2 ^ 53 \<and> (0 \<le> q \<longrightarrow> 0 \<le> r)
             \<and> (q \<le> 0 \<longrightarrow> r \<le> 0)"
proof -
  define e where "e = ilog2 \<bar>q\<bar>"
  have "(0::rat) < 2 powi (- 1022)" by (rule zero_less_power_int) simp
  with assms(1) have qpos: "0 < \<bar>q\<bar>" by linarith
  from ilog2_spec [OF qpos] have e: "2 powi e \<le> \<bar>q\<bar>" "\<bar>q\<bar> < 2 powi (e + 1)"
    by (simp_all add: e_def)
  have lo: "- 1022 \<le> e"
  proof (rule ccontr)
    assume "\<not> - 1022 \<le> e"
    then have "e + 1 \<le> - 1022" by simp
    then have "(2::rat) powi (e + 1) \<le> 2 powi (- 1022)"
      by (intro power_int_increasing) simp_all
    with e(2) assms(1) show False by linarith
  qed
  have hi: "e < 1023"
  proof (rule ccontr)
    assume "\<not> e < 1023"
    then have "(2::rat) powi 1023 \<le> 2 powi e"
      by (intro power_int_increasing) simp_all
    with e(1) assms(2) show False by linarith
  qed
  define m where "m = round_half_even (\<bar>q\<bar> / 2 powi (e - 52))"
  define u :: rat where "u = 2 powi (e - 52)"
  have upos: "0 < u" by (simp add: u_def)
  have rt: "round_to_double q = Finite ((if q < 0 then - 1 else 1) * (of_int m * u))"
    using round_to_double_normal [OF e lo hi] by (simp add: m_def u_def)
  have "\<bar>of_int m - \<bar>q\<bar> / u\<bar> \<le> 1 / 2"
    unfolding m_def u_def by (rule round_half_even_bound)
  then have "\<bar>of_int m - \<bar>q\<bar> / u\<bar> * u \<le> 1 / 2 * u"
    using upos by (intro mult_right_mono) simp_all
  moreover have "\<bar>of_int m - \<bar>q\<bar> / u\<bar> * u = \<bar>(of_int m - \<bar>q\<bar> / u) * u\<bar>"
    using upos by (intro abs_mult_pos) simp
  moreover have "(of_int m - \<bar>q\<bar> / u) * u = of_int m * u - \<bar>q\<bar>"
    using upos by (simp add: left_diff_distrib)
  ultimately have d: "\<bar>of_int m * u - \<bar>q\<bar>\<bar> \<le> u / 2"
    by simp
  have "u * 2 ^ 52 = 2 powi e"
  proof -
    have "(2::rat) powi ((e - 52) + 52) = 2 powi (e - 52) * 2 powi 52"
      by (rule power_int_add) simp
    then show ?thesis by (simp add: u_def)
  qed
  with e(1) have "u * 2 ^ 52 \<le> \<bar>q\<bar>" by simp
  then have uq: "u / 2 \<le> \<bar>q\<bar> / 2 ^ 53" by (simp add: field_simps)
  have "0 \<le> \<bar>q\<bar> / u" using upos by simp
  have m0: "0 \<le> m"
  proof (rule ccontr)
    assume "\<not> 0 \<le> m"
    then have "m \<le> - 1" by simp
    then have "(of_int m :: rat) \<le> - 1" by (metis of_int_le_iff of_int_minus of_int_1)
    with \<open>\<bar>of_int m - \<bar>q\<bar> / u\<bar> \<le> 1 / 2\<close> \<open>0 \<le> \<bar>q\<bar> / u\<close> show False by linarith
  qed
  then have mu: "0 \<le> of_int m * u" using upos by simp
  show ?thesis
  proof (cases "q < 0")
    case True
    then have "round_to_double q = Finite (- (of_int m * u))" using rt by simp
    moreover have "- (of_int m * u) - q = - (of_int m * u - \<bar>q\<bar>)"
      using True by simp
    then have "\<bar>- (of_int m * u) - q\<bar> = \<bar>of_int m * u - \<bar>q\<bar>\<bar>"
      by (simp only: abs_minus)
    ultimately show ?thesis using d uq mu True by auto
  next
    case False
    then have "round_to_double q = Finite (of_int m * u)" using rt by simp
    moreover have "\<bar>of_int m * u - q\<bar> = \<bar>of_int m * u - \<bar>q\<bar>\<bar>"
      using False by simp
    moreover have "0 < q" using False qpos by simp
    ultimately show ?thesis using d uq mu by auto
  qed
qed


section \<open>Evaluation on concrete texts and dates\<close>

lemmas char_eval = is_digit_def is_space_def digits_val_def digit_val_def Let_def

lemmas text_eval = int_of_text_def strip_ws_def split_sign_def remove_underscores_def char_eval

lemmas date_eval = dt_ge_def dt_key_def datetime_ymd_def

lemma round_to_double_numeral:
  "numeral n \<le> (2::int) ^ 53 \<Longrightarrow> round_to_double (numeral n) = Finite (numeral n)"
  using round_to_double_of_int [of "numeral n"] by simp

lemma round_half_even_numeral [simp]: "round_half_even (numeral n) = numeral n"
  using round_half_even_of_int [of "numeral n"] by simp

lemma round_half_even_zero [simp]: "round_half_even 0 = 0"
  using round_half_even_of_int [of 0] by simp

lemma round_half_even_one [simp]: "round_half_even 1 = 1"
  using round_half_even_of_int [of 1] by simp

lemma round_to_double_zero [simp]: "round_to_double 0 = Finite 0"
  by (simp add: round_to_double_def)

lemma round_to_double_one [simp]: "round_to_double 1 = Finite 1"
  using round_to_double_of_int [of 1] by simp

lemmas float_core = float_of_text_def to_lower_def decimal_of_text_def exponent_of_text_def
  strip_dollar_def

lemmas float_text_eval = float_core strip_ws_def split_sign_def remove_underscores_def char_eval

lemmas date_core = strptime_def month_of_text_def day_of_text_def year_of_text_def
  days_in_month_def is_leap_def

lemmas date_text_eval = date_core char_eval

lemmas price_core = price_of_text_def round_to_double_numeral float_mul_def py_round_def

lemmas price_eval = price_core float_text_eval

lemmas table_eval = reconcile_def add_entry_def update_duplicate_def Product_create_def
  Product_get_def Product_save_def next_id_def in_int64_def

lemmas csv_eval = csv_entry_def date_core price_core float_core text_eval table_eval
  datetime_ymd_def

lemma price_12_345: "price_of_text ''$12.345'' = Inr 1234"
proof -
  have t: "float_of_text (strip_dollar ''$12.345'') = Inr (round_to_double (2469 / 200))"
    by (simp add: float_text_eval)
  have r1: "round_half_even (\<bar>2469 / 200\<bar> / 2 powi (3 - 52)) = 6949617174986097"
    by (rule round_half_even_unique) simp
  have x: "round_to_double (2469 / 200) = Finite (6949617174986097 / 562949953421312)"
    using round_to_double_normal [of 3 "2469 / 200"] r1 by simp
  have r2: "round_half_even (\<bar>6949617174986097 / 562949953421312 * 100\<bar> / 2 powi (10 - 52))
            = 5429388417957888"
    by (rule round_half_even_unique) simp
  have y: "round_to_double (6949617174986097 / 562949953421312 * 100) = Finite (2469 / 2)"
    using round_to_double_normal [of 10 "6949617174986097 / 562949953421312 * 100"] r2 by simp
  have "round_half_even (2469 / 2) = 1234"
    by (rule round_half_even_tie) simp_all
  with t x y show ?thesis
    by (simp add: price_of_text_def float_mul_def py_round_def)
qed

section \<open>Further properties of the table and of the import loop\<close>

lemma wf_table_empty: "wf_table []"
  by (simp add: wf_table_def)

lemma wf_table_distinct_names: "wf_table tb \<Longrightarrow> distinct (map product_name tb)"
  by (simp add: wf_table_def)

lemma price_attempt_third_decimal:
  assumes "CHR ''.'' \<in> set s" "3 < length (dropWhile (\<lambda>c. c \<noteq> CHR ''.'') s)"
  shows "price_attempt s = Inl InputError"
  using assms by (simp add: price_attempt_def decimal_check_def)

lemma csv_entry_fails:
  "csv_entry row = Inl e \<longleftrightarrow>
     strptime (c_date_updated row) = Inl e
     \<or> (\<exists>d. strptime (c_date_updated row) = Inr d \<and> price_of_text (c_product_price row) = Inl e)"
  by (auto simp: csv_entry_def split: sum.splits)

lemma add_csv_append:
  "add_csv before tb = (tb', None) \<Longrightarrow> add_csv (before @ rest) tb = add_csv rest tb'"
  by (induction before arbitrary: tb) (auto split: sum.splits)

section \<open>Properties of the text conversions\<close>

lemma is_digit_not_special:
  assumes "is_digit c"
  shows "c \<noteq> CHR ''_''" "c \<noteq> CHR ''.''" "c \<noteq> CHR ''-''" "c \<noteq> CHR ''+''" "c \<noteq> CHR ''$''"
    "c \<noteq> CHR ''/''" "\<not> is_space c" "to_lower c = c" "c \<noteq> CHR ''i''" "c \<noteq> CHR ''n''"
  using assms by (auto simp: is_digit_def is_space_def to_lower_def)

lemma underscores_ok_plain:
  "CHR ''_'' \<notin> set s \<Longrightarrow> prev \<noteq> CHR ''_'' \<Longrightarrow> underscores_ok prev s"
  by (induction s arbitrary: prev) auto

lemma remove_underscores_plain:
  "CHR ''_'' \<notin> set s \<Longrightarrow> remove_underscores s = Some s"
  by (auto simp: remove_underscores_def underscores_ok_plain filter_id_conv)

lemma dropWhile_hd: "s \<noteq> [] \<Longrightarrow> \<not> P (hd s) \<Longrightarrow> dropWhile P s = s"
  by (cases s) simp_all

lemma strip_ends:
  assumes "s \<noteq> []" "\<not> P (hd s)" "\<not> P (last s)"
  shows "rev (dropWhile P (rev (dropWhile P s))) = s"
proof -
  have "dropWhile P s = s" using assms by (simp add: dropWhile_hd)
  moreover have "dropWhile P (rev s) = rev s"
    using assms by (intro dropWhile_hd) (simp_all add: hd_rev)
  ultimately show ?thesis by simp
qed

lemma strip_ws_plain:
  "s \<noteq> [] \<Longrightarrow> \<not> is_space (hd s) \<Longrightarrow> \<not> is_space (last s) \<Longrightarrow> strip_ws s = s"
  unfolding strip_ws_def by (rule strip_ends)

lemma split_sign_plain:
  "s \<noteq> [] \<Longrightarrow> hd s \<noteq> CHR ''-'' \<Longrightarrow> hd s \<noteq> CHR ''+'' \<Longrightarrow> split_sign s = (False, s)"
  by (cases s) (simp_all add: split_sign_def)

lemma digits_val_append:
  "digits_val (xs @ ys) = digits_val xs * 10 ^ length ys + digits_val ys"
proof (induction ys rule: rev_induct)
  case Nil
  then show ?case by (simp add: digits_val_def)
next
  case (snoc y ys)
  have "digits_val (xs @ ys @ [y]) = 10 * digits_val (xs @ ys) + digit_val y"
    by (simp add: digits_val_def)
  moreover have "digits_val (ys @ [y]) = 10 * digits_val ys + digit_val y"
    by (simp add: digits_val_def)
  ultimately show ?case
    using snoc by (simp add: algebra_simps)
qed

text \<open>The decimal grammar on digits, a point and digits.\<close>

lemma decimal_of_text_point:
  assumes "ip \<noteq> []" "list_all is_digit ip" "list_all is_digit fp"
  shows "decimal_of_text (ip @ CHR ''.'' # fp)
         = Some (of_nat (digits_val (ip @ fp)) * 10 powi (- int (length fp)))"
proof -
  have nd: "\<not> is_digit (CHR ''.'')" by (simp add: is_digit_def)
  have t: "takeWhile is_digit (ip @ CHR ''.'' # fp) = ip"
    using assms(2) nd by (simp add: list_all_iff takeWhile_tail)
  have d: "dropWhile is_digit (ip @ CHR ''.'' # fp) = CHR ''.'' # fp"
    using assms(2) nd by (simp add: list_all_iff)
  have tf: "takeWhile is_digit fp = fp" "dropWhile is_digit fp = []"
    using assms(3) by (simp_all add: list_all_iff)
  show ?thesis
    using assms(1) by (simp add: decimal_of_text_def t d tf exponent_of_text_def Let_def)
qed

lemma decimal_of_text_whole:
  assumes "ip \<noteq> []" "list_all is_digit ip"
  shows "decimal_of_text ip = Some (of_nat (digits_val ip))"
proof -
  have tf: "takeWhile is_digit ip = ip" "dropWhile is_digit ip = []"
    using assms(2) by (simp_all add: list_all_iff)
  show ?thesis
    using assms(1) by (simp add: decimal_of_text_def tf exponent_of_text_def Let_def)
qed

text \<open>A text that starts with a digit and has no sign, space or underscore.\<close>

lemma float_of_text_plain:
  assumes "s \<noteq> []" "is_digit (hd s)" "CHR ''_'' \<notin> set s" "\<not> is_space (last s)"
  shows "float_of_text s =
           (case decimal_of_text s of None \<Rightarrow> Inl ValueError
            | Some q \<Rightarrow> Inr (round_to_double q))"
proof -
  note h = is_digit_not_special [OF assms(2)]
  have "strip_ws s = s" using assms h by (simp add: strip_ws_plain)
  moreover have "split_sign s = (False, s)" using assms h by (simp add: split_sign_plain)
  moreover have "map to_lower s \<noteq> ''inf''" "map to_lower s \<noteq> ''infinity''"
    "map to_lower s \<noteq> ''nan''"
    using assms(1) h by (cases s; auto)+
  ultimately show ?thesis
    using assms(3) by (simp add: float_of_text_def remove_underscores_plain split: option.splits)
qed


text \<open>Two roundings, of the dollars and of their hundredfold, still give the cents.\<close>

lemma cents_parse_exact:
  assumes "\<bar>c\<bar> < 2 ^ 51"
  shows "py_round (float_mul (round_to_double (of_int c / 100)) (Finite 100)) = Inr c"
proof (cases "c = 0")
  case True
  then show ?thesis
    by (simp add: round_to_double_def float_mul_def py_round_def)
next
  case False
  define q :: rat where "q = of_int c / 100"
  define a :: rat where "a = \<bar>of_int c\<bar>"
  have a1: "1 \<le> a"
  proof -
    from False have "1 \<le> \<bar>c\<bar>" by simp
    then have "(of_int 1 :: rat) \<le> of_int \<bar>c\<bar>" by (simp only: of_int_le_iff)
    then show ?thesis by (simp add: a_def)
  qed
  have a51: "a \<le> 2 ^ 51 - 1"
  proof -
    from assms have "\<bar>c\<bar> \<le> 2 ^ 51 - 1" by simp
    then have "(of_int \<bar>c\<bar> :: rat) \<le> of_int (2 ^ 51 - 1)" by (simp only: of_int_le_iff)
    then show ?thesis by (simp add: a_def)
  qed
  have aq: "\<bar>q\<bar> = a / 100" by (simp add: q_def a_def)
  have p1: "(2::rat) powi (- 1022) \<le> 1 / 2 ^ 10"
  proof -
    have "(2::rat) powi (- 1022) \<le> 2 powi (- 10)"
      by (intro power_int_increasing) simp_all
    then show ?thesis by (simp add: power_int_minus_divide)
  qed
  have p2: "(2::rat) ^ 60 \<le> 2 powi 1023"
  proof -
    have "(2::rat) powi 60 \<le> 2 powi 1023"
      by (intro power_int_increasing) simp_all
    then show ?thesis by simp
  qed
  have "2 powi (- 1022) \<le> \<bar>q\<bar>" "\<bar>q\<bar> < 2 powi 1023"
    using a1 a51 p1 p2 unfolding aq by simp_all
  from round_to_double_error [OF this] obtain x where
    x: "round_to_double q = Finite x" "\<bar>x - q\<bar> \<le> \<bar>q\<bar> / 2 ^ 53"
    by blast
  have xq: "\<bar>x * 100 - of_int c\<bar> \<le> a / 2 ^ 53"
  proof -
    have "x * 100 - of_int c = (x - q) * 100" by (simp add: q_def algebra_simps)
    then have "\<bar>x * 100 - of_int c\<bar> = \<bar>x - q\<bar> * 100" by (simp only: abs_mult abs_numeral)
    with x(2) aq show ?thesis by simp
  qed
  have x100: "\<bar>x * 100\<bar> \<le> a + a / 2 ^ 53" "a - a / 2 ^ 53 \<le> \<bar>x * 100\<bar>"
    using xq unfolding a_def by linarith+
  have "2 powi (- 1022) \<le> \<bar>x * 100\<bar>" "\<bar>x * 100\<bar> < 2 powi 1023"
    using x100 a1 a51 p1 p2 by simp_all
  from round_to_double_error [OF this] obtain y where
    y: "round_to_double (x * 100) = Finite y" "\<bar>y - x * 100\<bar> \<le> \<bar>x * 100\<bar> / 2 ^ 53"
    by blast
  have "\<bar>y - x * 100\<bar> \<le> (a + a / 2 ^ 53) / 2 ^ 53"
    using y(2) x100(1) by simp
  with xq have "\<bar>y - of_int c\<bar> \<le> a / 2 ^ 53 + (a + a / 2 ^ 53) / 2 ^ 53"
    by linarith
  also have "\<dots> < 1 / 2"
    using a51 by simp
  finally have "\<bar>of_int c - y\<bar> < 1 / 2"
    by (simp add: abs_minus_commute)
  then have "round_half_even y = c"
    by (rule round_half_even_unique)
  then show ?thesis
    using x(1) y(1) by (simp add: q_def float_mul_def py_round_def)
qed


lemma strip_dollar_price:
  assumes "t \<noteq> []" "hd t \<noteq> CHR ''$''" "last t \<noteq> CHR ''$''" "dollar = [] \<or> dollar = ''$''"
  shows "strip_dollar (dollar @ t) = t"
proof -
  have "dropWhile (\<lambda>c. c = CHR ''$'') (dollar @ t) = t"
    using assms by (auto simp: dropWhile_hd)
  moreover have "dropWhile (\<lambda>c. c = CHR ''$'') (rev t) = rev t"
    using assms by (intro dropWhile_hd) (simp_all add: hd_rev)
  ultimately show ?thesis by (simp add: strip_dollar_def)
qed

lemma exact_cents_scaled:
  assumes "length fp \<le> 2"
  shows "(of_nat (digits_val (ip @ fp)) :: rat) * 10 powi (- int (length fp))
         = of_int (int (exact_cents ip fp)) / 100"
proof -
  from assms consider "length fp = 0" | "length fp = 1" | "length fp = 2"
    by linarith
  then show ?thesis
  proof cases
    case 1
    then show ?thesis by (simp add: exact_cents_def digits_val_def)
  next
    case 2
    then show ?thesis
      by (simp add: exact_cents_def digits_val_append power_int_minus field_simps)
  next
    case 3
    then show ?thesis
      by (simp add: exact_cents_def digits_val_append power_int_minus field_simps)
  qed
qed

lemma price_of_text_two_decimals:
  assumes "ip \<noteq> []" and "list_all is_digit ip" and "list_all is_digit fp"
    and "length fp \<le> 2" and "exact_cents ip fp < 2 ^ 51"
    and "dollar = [] \<or> dollar = ''$''"
  shows "price_of_text (dollar @ ip @ CHR ''.'' # fp) = Inr (int (exact_cents ip fp))
       \<and> (fp = [] \<longrightarrow> price_of_text (dollar @ ip) = Inr (int (exact_cents ip fp)))"
proof -
  have c: "\<bar>int (exact_cents ip fp)\<bar> < 2 ^ 51"
  proof -
    from assms(5) have "int (exact_cents ip fp) < int (2 ^ 51)"
      by (simp only: of_nat_less_iff)
    then show ?thesis by simp
  qed
  have hd_digit: "is_digit (hd ip)"
    using assms(1,2) by (cases ip) simp_all
  note h = is_digit_not_special [OF hd_digit]
  have last_ip: "is_digit (last ip)"
    using assms(1,2) by (simp add: list_all_iff)
  have last_fp: "fp \<noteq> [] \<Longrightarrow> is_digit (last fp)"
    using assms(3) by (simp add: list_all_iff)
  let ?t = "ip @ CHR ''.'' # fp"
  have no_us: "CHR ''_'' \<notin> set ?t" "CHR ''_'' \<notin> set ip"
    using assms(2,3) is_digit_not_special(1) by (auto simp: list_all_iff)
  have last_t: "last ?t \<noteq> CHR ''$''" "\<not> is_space (last ?t)"
    using last_fp is_digit_not_special(5,7) by (auto simp: is_space_def)
  have hd_t: "hd ?t = hd ip" using assms(1) by simp
  have "strip_dollar (dollar @ ?t) = ?t"
    using assms(6) h(5) hd_t last_t(1) by (intro strip_dollar_price) simp_all
  moreover have "float_of_text ?t
      = Inr (round_to_double (of_int (int (exact_cents ip fp)) / 100))"
    using float_of_text_plain [of ?t] hd_digit hd_t no_us(1) last_t(2)
      decimal_of_text_point [OF assms(1,2,3)] exact_cents_scaled [OF assms(4)]
    by simp
  ultimately have point: "price_of_text (dollar @ ?t) = Inr (int (exact_cents ip fp))"
    using cents_parse_exact [OF c] by (simp add: price_of_text_def)
  have whole: "price_of_text (dollar @ ip) = Inr (int (exact_cents ip fp))" if "fp = []"
  proof -
    have "strip_dollar (dollar @ ip) = ip"
      using assms(1,6) h(5) last_ip is_digit_not_special(5) by (intro strip_dollar_price) auto
    moreover have "float_of_text ip
        = Inr (round_to_double (of_int (int (exact_cents ip fp)) / 100))"
    proof -
      have f: "float_of_text ip = Inr (round_to_double (of_nat (digits_val ip)))"
        using float_of_text_plain [of ip] assms(1) hd_digit no_us(2) last_ip
          is_digit_not_special(7) decimal_of_text_whole [OF assms(1,2)]
        by simp
      have v: "(of_nat (digits_val ip) :: rat) = of_int (int (exact_cents ip fp)) / 100"
        using that by (simp add: exact_cents_def digits_val_def)
      show ?thesis
        by (subst v [symmetric]) (rule f)
    qed
    ultimately show ?thesis
      using cents_parse_exact [OF c] by (simp add: price_of_text_def)
  qed
  from point whole show ?thesis by simp
qed

section \<open>Rendering and reading back\<close>

lemma digit_char_props:
  assumes "d < 10"
  shows "is_digit (digit_char d)" "digit_val (digit_char d) = d"
  using assms by (simp_all add: is_digit_def digit_val_def digit_char_def)

lemma digits_of_digits: "list_all is_digit (digits_of n)"
proof (induction n rule: digits_of.induct)
  case (1 n)
  show ?case
  proof (cases "n < 10")
    case True
    then show ?thesis
      by (simp add: digits_of.simps [of n] digit_char_props)
  next
    case False
    with 1 show ?thesis
      by (simp add: digits_of.simps [of n] digit_char_props)
  qed
qed

lemma digits_of_nonempty: "digits_of n \<noteq> []"
  by (simp add: digits_of.simps [of n])

lemma digits_val_digits_of: "digits_val (digits_of n) = n"
proof (induction n rule: digits_of.induct)
  case (1 n)
  show ?case
  proof (cases "n < 10")
    case True
    then show ?thesis
      by (simp add: digits_of.simps [of n] digits_val_def digit_char_props)
  next
    case False
    with 1 have "digits_val (digits_of (n div 10)) = n div 10" by simp
    then show ?thesis
      using False by (simp add: digits_of.simps [of n] digits_val_append digit_char_props)
        (simp add: digits_val_def digit_char_props)
  qed
qed

lemma length_digits_of_le: "0 < k \<Longrightarrow> n < 10 ^ k \<Longrightarrow> length (digits_of n) \<le> k"
proof (induction n arbitrary: k rule: digits_of.induct)
  case (1 n)
  show ?case
  proof (cases "n < 10")
    case True
    then show ?thesis
      using "1.prems" by (simp add: digits_of.simps [of n])
  next
    case False
    with "1.prems" have k: "1 < k"
      by (cases "k = 1") auto
    then obtain j where j: "k = Suc j" "0 < j"
      by (cases k) auto
    from "1.prems"(2) j have "n div 10 < 10 ^ j"
      by (simp add: less_mult_imp_div_less mult.commute)
    with "1.IH" [OF False j(2)] have "length (digits_of (n div 10)) \<le> j" .
    then show ?thesis
      using False j by (simp add: digits_of.simps [of n])
  qed
qed

lemma length_digits_of_ge: "10 ^ k \<le> n \<Longrightarrow> Suc k \<le> length (digits_of n)"
proof (induction n arbitrary: k rule: digits_of.induct)
  case (1 n)
  show ?case
  proof (cases k)
    case 0
    then show ?thesis
      using digits_of_nonempty [of n] by (cases "digits_of n") simp_all
  next
    case (Suc j)
    with "1.prems" have n10: "\<not> n < 10"
      by (simp add: not_less) (metis One_nat_def le_trans one_le_numeral one_le_power
          mult_le_mono2 nat_mult_1_right)
    from "1.prems" Suc have "10 ^ j \<le> n div 10"
      by (simp add: less_eq_div_iff_mult_less_eq mult.commute)
    with "1.IH" [OF n10] have "Suc j \<le> length (digits_of (n div 10))" .
    then show ?thesis
      using n10 Suc by (simp add: digits_of.simps [of n])
  qed
qed

lemma length_digits_of_year:
  "1000 \<le> y \<Longrightarrow> y \<le> 9999 \<Longrightarrow> length (digits_of y) = 4"
  using length_digits_of_le [of 4 y] length_digits_of_ge [of 3 y] by simp


lemma int_of_text_str_int: "int_of_text (str_int i) = Inr i"
proof -
  define n where "n = nat \<bar>i\<bar>"
  define ds where "ds = digits_of n"
  have ds: "ds \<noteq> []" "list_all is_digit ds" "digits_val ds = n"
    by (simp_all add: ds_def digits_of_nonempty digits_of_digits digits_val_digits_of)
  then have hl: "is_digit (hd ds)" "is_digit (last ds)"
    by (simp_all add: list_all_iff)
  have no_us: "CHR ''_'' \<notin> set ds"
    using ds(2) is_digit_not_special(1) by (auto simp: list_all_iff)
  have ru: "remove_underscores ds = Some ds"
    using no_us by (rule remove_underscores_plain)
  show ?thesis
  proof (cases "i < 0")
    case True
    then have s: "str_int i = CHR ''-'' # ds"
      by (simp add: str_int_def ds_def n_def)
    have "strip_ws (CHR ''-'' # ds) = CHR ''-'' # ds"
      using ds(1) hl(2) is_digit_not_special(7) by (intro strip_ws_plain) (simp_all add: is_space_def)
    then show ?thesis
      using True ds ru by (simp add: s int_of_text_def split_sign_def n_def)
  next
    case False
    then have s: "str_int i = ds"
      by (simp add: str_int_def ds_def n_def)
    have "strip_ws ds = ds"
      using ds(1) hl is_digit_not_special(7) by (intro strip_ws_plain) simp_all
    moreover have "split_sign ds = (False, ds)"
      using ds(1) hl(1) is_digit_not_special(3,4) by (intro split_sign_plain) simp_all
    ultimately show ?thesis
      using False ds ru by (simp add: s int_of_text_def n_def)
  qed
qed

lemma digit_char_eq_iff: "d < 10 \<Longrightarrow> digit_char d = c \<longleftrightarrow> (of_char c :: nat) = 48 + d"
proof -
  assume "d < 10"
  then have "(of_char (digit_char d) :: nat) = 48 + d"
    by (simp add: digit_char_def)
  then show ?thesis
    by (metis of_char_eq_iff)
qed

lemma month_of_text_two_digits:
  assumes "1 \<le> m" "m \<le> 12"
  shows "month_of_text (two_digits m) = Some m"
proof -
  from assms have "m = 1 \<or> m = 2 \<or> m = 3 \<or> m = 4 \<or> m = 5 \<or> m = 6 \<or> m = 7 \<or> m = 8
      \<or> m = 9 \<or> m = 10 \<or> m = 11 \<or> m = 12" by presburger
  then show ?thesis
    by (elim disjE)
      (simp_all add: month_of_text_def two_digits_def digit_char_eq_iff digit_char_props)
qed

lemma day_of_text_two_digits:
  assumes "1 \<le> d" "d \<le> 31"
  shows "day_of_text (two_digits d) = Some d"
proof -
  from assms have "d = 1 \<or> d = 2 \<or> d = 3 \<or> d = 4 \<or> d = 5 \<or> d = 6 \<or> d = 7 \<or> d = 8
      \<or> d = 9 \<or> d = 10 \<or> d = 11 \<or> d = 12 \<or> d = 13 \<or> d = 14 \<or> d = 15 \<or> d = 16
      \<or> d = 17 \<or> d = 18 \<or> d = 19 \<or> d = 20 \<or> d = 21 \<or> d = 22 \<or> d = 23 \<or> d = 24
      \<or> d = 25 \<or> d = 26 \<or> d = 27 \<or> d = 28 \<or> d = 29 \<or> d = 30 \<or> d = 31" by presburger
  then show ?thesis
    by (elim disjE)
      (simp_all add: day_of_text_def two_digits_def digit_char_eq_iff digit_char_props)
qed

lemma two_digits_digits: "list_all is_digit (two_digits n)" "length (two_digits n) = 2"
  by (simp_all add: two_digits_def digit_char_props)

lemma digits_val_two_digits: "n < 100 \<Longrightarrow> digits_val (two_digits n) = n"
  by (simp add: two_digits_def digits_val_def digit_char_props)

lemma digits_val_zeros: "digits_val (replicate k (CHR ''0'') @ ds) = digits_val ds"
proof -
  have "digits_val (replicate k (CHR ''0'')) = 0"
    by (induction k) (simp_all add: digits_val_def digit_val_def)
  then show ?thesis by (simp add: digits_val_append)
qed


lemma split_at_slash:
  assumes "list_all is_digit xs"
  shows "takeWhile (\<lambda>c. c \<noteq> CHR ''/'') (xs @ CHR ''/'' # rest) = xs"
    and "dropWhile (\<lambda>c. c \<noteq> CHR ''/'') (xs @ CHR ''/'' # rest) = CHR ''/'' # rest"
proof -
  have "\<forall>c \<in> set xs. c \<noteq> CHR ''/''"
    using assms is_digit_not_special(6) by (auto simp: list_all_iff)
  then show "takeWhile (\<lambda>c. c \<noteq> CHR ''/'') (xs @ CHR ''/'' # rest) = xs"
    and "dropWhile (\<lambda>c. c \<noteq> CHR ''/'') (xs @ CHR ''/'' # rest) = CHR ''/'' # rest"
    by (simp_all add: takeWhile_tail)
qed

lemma strptime_parts:
  assumes "list_all is_digit mm" "list_all is_digit dd"
    and "month_of_text mm = Some m" "day_of_text dd = Some d" "year_of_text ys = Some y"
    and "y \<noteq> 0" "d \<le> days_in_month y m"
  shows "strptime (mm @ ''/'' @ dd @ ''/'' @ ys) = Inr (datetime_ymd y m d)"
  using assms(3-7) split_at_slash [OF assms(1)] split_at_slash [OF assms(2)]
  by (simp add: strptime_def Let_def)

lemma year_text:
  assumes "1 \<le> y" "y \<le> 9999" "pad \<or> 1000 \<le> y"
  shows "year_of_text ((if pad then replicate (4 - length (digits_of y)) (CHR ''0'') else [])
                       @ digits_of y) = Some y"
proof -
  have le4: "length (digits_of y) \<le> 4"
    using assms(2) by (intro length_digits_of_le) simp_all
  have z: "list_all is_digit (replicate k (CHR ''0''))" for k
    by (simp add: list_all_iff is_digit_def)
  show ?thesis
  proof (cases pad)
    case True
    then show ?thesis
      using le4 z by (simp add: year_of_text_def digits_of_digits digits_val_zeros
          digits_val_digits_of)
  next
    case False
    with assms(3) have "1000 \<le> y" by simp
    then have "length (digits_of y) = 4"
      using assms(2) by (rule length_digits_of_year)
    then show ?thesis
      using False by (simp add: year_of_text_def digits_of_digits digits_val_digits_of)
  qed
qed

lemma days_in_month_le: "days_in_month y m \<le> 31"
  by (simp add: days_in_month_def)

lemma strptime_strftime:
  assumes "valid_datetime d" "pad \<or> 1000 \<le> year d"
  shows "strptime (strftime pad d) = Inr (midnight d)"
proof -
  from assms(1) have v: "1 \<le> year d" "year d \<le> 9999" "1 \<le> month d" "month d \<le> 12"
    "1 \<le> day d" "day d \<le> days_in_month (year d) (month d)"
    by (simp_all add: valid_datetime_def)
  have d31: "day d \<le> 31"
    using v(6) days_in_month_le [of "year d" "month d"] by linarith
  have "strptime (two_digits (month d) @ ''/'' @ two_digits (day d) @ ''/''
      @ ((if pad then replicate (4 - length (digits_of (year d))) (CHR ''0'') else [])
         @ digits_of (year d)))
    = Inr (datetime_ymd (year d) (month d) (day d))"
    using v
    by (intro strptime_parts two_digits_digits month_of_text_two_digits
        day_of_text_two_digits year_text d31 assms(2)) simp_all
  moreover have "datetime_ymd (year d) (month d) (day d) = midnight d"
    by (simp add: datetime_ymd_def midnight_def)
  ultimately show ?thesis
    by (simp add: strftime_def)
qed

lemma round_to_double_cent:
  "round_to_double (1 / 100) = Finite (5764607523034235 / 576460752303423488)"
proof -
  have r: "round_half_even (\<bar>1 / 100\<bar> / 2 powi (- 7 - 52)) = 5764607523034235"
    by (rule round_half_even_unique) (simp add: power_int_minus_divide)
  show ?thesis
    using round_to_double_normal [of "- 7" "1 / 100"] r by (simp add: power_int_minus_divide)
qed

lemma pow2_bounds:
  "(2::rat) powi (- 1022) \<le> 1 / 2 ^ 10" "(2::rat) ^ 70 \<le> 2 powi 1023"
proof -
  have "(2::rat) powi (- 1022) \<le> 2 powi (- 10)"
    by (intro power_int_increasing) simp_all
  then show "(2::rat) powi (- 1022) \<le> 1 / 2 ^ 10"
    by (simp add: power_int_minus_divide)
  have "(2::rat) powi 70 \<le> 2 powi 1023"
    by (intro power_int_increasing) simp_all
  then show "(2::rat) ^ 70 \<le> 2 powi 1023" by simp
qed

text \<open>A rounding in the normal range keeps the sign.\<close>

lemma round_to_double_sign:
  assumes "1 / 2 ^ 10 \<le> \<bar>q\<bar>" "\<bar>q\<bar> < 2 ^ 70"
  shows "\<exists>r. round_to_double q = Finite r \<and> \<bar>r - q\<bar> \<le> \<bar>q\<bar> / 2 ^ 53
             \<and> (r < 0 \<longleftrightarrow> q < 0) \<and> r \<noteq> 0"
proof -
  have "2 powi (- 1022) \<le> \<bar>q\<bar>" "\<bar>q\<bar> < 2 powi 1023"
    using assms pow2_bounds by linarith+
  from round_to_double_error [OF this] obtain r where
    r: "round_to_double q = Finite r" "\<bar>r - q\<bar> \<le> \<bar>q\<bar> / 2 ^ 53"
       "0 \<le> q \<longrightarrow> 0 \<le> r" "q \<le> 0 \<longrightarrow> r \<le> 0"
    by blast
  have "(0::rat) < 1 / 2 ^ 10" by simp
  with assms(1) have "0 < \<bar>q\<bar>" by linarith
  then have "\<bar>q\<bar> / 2 ^ 53 < \<bar>q\<bar>" by simp
  with r(2) have "r \<noteq> 0" by auto
  with r show ?thesis by (intro exI [of _ r]) auto
qed

lemma price_text_finite:
  assumes "in_int64 p"
  shows "\<exists>w. price_text p = Inr (CHR ''$'' # format_2f (Finite w)) \<and> (w < 0 \<longleftrightarrow> p < 0)"
proof (cases "p = 0")
  case True
  then show ?thesis
    by (intro exI [of _ 0])
      (simp add: price_text_def float_of_int_def round_to_double_cent float_mul_def)
next
  case False
  define z :: rat where "z = 5764607523034235 / 576460752303423488"
  define b :: rat where "b = \<bar>of_int p\<bar>"
  have b1: "1 \<le> b"
  proof -
    from False have "1 \<le> \<bar>p\<bar>" by simp
    then have "(of_int 1 :: rat) \<le> of_int \<bar>p\<bar>" by (simp only: of_int_le_iff)
    then show ?thesis by (simp add: b_def)
  qed
  have b63: "b \<le> 2 ^ 63"
  proof -
    from assms have "\<bar>p\<bar> \<le> 2 ^ 63" by (auto simp: in_int64_def abs_le_iff)
    then have "(of_int \<bar>p\<bar> :: rat) \<le> of_int (2 ^ 63)" by (simp only: of_int_le_iff)
    then show ?thesis by (simp add: b_def)
  qed
  have "1 / 2 ^ 10 \<le> \<bar>of_int p :: rat\<bar>" "\<bar>of_int p :: rat\<bar> < 2 ^ 70"
    using b1 b63 unfolding b_def by simp_all
  from round_to_double_sign [OF this] obtain a where
    a: "round_to_double (of_int p) = Finite a" "\<bar>a - of_int p\<bar> \<le> b / 2 ^ 53"
       "a < 0 \<longleftrightarrow> p < 0" "a \<noteq> 0"
    unfolding b_def by auto
  have ab: "b - b / 2 ^ 53 \<le> \<bar>a\<bar>" "\<bar>a\<bar> \<le> b + b / 2 ^ 53"
    using a(2) unfolding b_def by linarith+
  have az: "\<bar>a * z\<bar> = \<bar>a\<bar> * z"
    by (simp add: abs_mult z_def)
  have "1 / 2 ^ 10 \<le> \<bar>a * z\<bar>" "\<bar>a * z\<bar> < 2 ^ 70"
    unfolding az using ab b1 b63 by (simp_all add: z_def)
  from round_to_double_sign [OF this] obtain w where
    w: "round_to_double (a * z) = Finite w" "w < 0 \<longleftrightarrow> a * z < 0"
    by auto
  have "a * z < 0 \<longleftrightarrow> a < 0"
    by (simp add: z_def mult_less_0_iff)
  with w a show ?thesis
    by (intro exI [of _ w])
      (simp add: price_text_def float_of_int_def round_to_double_cent float_mul_def z_def)
qed


text \<open>Below \<open>2\<^sup>5\<^sup>1\<close> the rendering shows the price itself.\<close>

lemma price_text_exact:
  assumes "\<bar>p\<bar> < 2 ^ 51"
  shows "price_text p =
           Inr (CHR ''$'' # (if p < 0 then ''-'' else [])
                @ digits_of (nat \<bar>p\<bar> div 100) @ ''.'' @ two_digits (nat \<bar>p\<bar> mod 100))"
proof (cases "p = 0")
  case True
  then show ?thesis
    by (simp add: price_text_def float_of_int_def round_to_double_cent float_mul_def
        format_2f_def)
next
  case False
  define z :: rat where "z = 5764607523034235 / 576460752303423488"
  define b :: rat where "b = \<bar>of_int p\<bar>"
  have b1: "1 \<le> b"
  proof -
    from False have "1 \<le> \<bar>p\<bar>" by simp
    then have "(of_int 1 :: rat) \<le> of_int \<bar>p\<bar>" by (simp only: of_int_le_iff)
    then show ?thesis by (simp add: b_def)
  qed
  have b51: "b \<le> 2 ^ 51 - 1"
  proof -
    from assms have "\<bar>p\<bar> \<le> 2 ^ 51 - 1" by simp
    then have "(of_int \<bar>p\<bar> :: rat) \<le> of_int (2 ^ 51 - 1)" by (simp only: of_int_le_iff)
    then show ?thesis by (simp add: b_def)
  qed
  have fp: "round_to_double (of_int p) = Finite (of_int p)"
    using assms by (intro round_to_double_of_int) simp
  have pz: "\<bar>of_int p * z\<bar> = b * z"
    by (simp add: abs_mult z_def b_def)
  have "1 / 2 ^ 10 \<le> \<bar>of_int p * z\<bar>" "\<bar>of_int p * z\<bar> < 2 ^ 70"
    unfolding pz using b1 b51 by (simp_all add: z_def)
  from round_to_double_sign [OF this] obtain w where
    w: "round_to_double (of_int p * z) = Finite w" "\<bar>w - of_int p * z\<bar> \<le> b * z / 2 ^ 53"
       "w < 0 \<longleftrightarrow> of_int p * z < 0"
    unfolding pz by auto
  have sign: "w < 0 \<longleftrightarrow> p < 0"
    using w(3) by (simp add: z_def mult_less_0_iff)
  have "\<bar>\<bar>w\<bar> - \<bar>of_int p * z\<bar>\<bar> \<le> \<bar>w - of_int p * z\<bar>"
    by (rule abs_triangle_ineq3)
  with w(2) have "\<bar>\<bar>w\<bar> - b * z\<bar> \<le> b * z / 2 ^ 53"
    unfolding pz by linarith
  then have "abs (of_int (abs p) - abs w * 100) < (1 / 2 :: rat)"
    using b51 b1 unfolding z_def b_def by (simp add: abs_if split: if_splits)
  then have "round_half_even (\<bar>w\<bar> * 100) = \<bar>p\<bar>"
    by (rule round_half_even_unique)
  then show ?thesis
    using fp w(1) sign
    by (simp add: price_text_def float_of_int_def round_to_double_cent float_mul_def
        format_2f_def z_def Let_def)
qed


lemma float_of_text_minus:
  assumes "t \<noteq> []" "is_digit (hd t)" "CHR ''_'' \<notin> set t" "\<not> is_space (last t)"
  shows "float_of_text (CHR ''-'' # t) =
           (case decimal_of_text t of None \<Rightarrow> Inl ValueError
            | Some q \<Rightarrow> Inr (round_to_double (- q)))"
proof -
  note h = is_digit_not_special [OF assms(2)]
  have "remove_underscores (CHR ''-'' # t) = Some (CHR ''-'' # t)"
    using assms(3) by (intro remove_underscores_plain) simp
  moreover have "strip_ws (CHR ''-'' # t) = CHR ''-'' # t"
    using assms(1,4) by (intro strip_ws_plain) (simp_all add: is_space_def)
  moreover have "split_sign (CHR ''-'' # t) = (True, t)"
    by (simp add: split_sign_def)
  moreover have "map to_lower t \<noteq> ''inf''" "map to_lower t \<noteq> ''infinity''"
    "map to_lower t \<noteq> ''nan''"
    using assms(1) h by (cases t; auto)+
  ultimately show ?thesis
    by (simp add: float_of_text_def split: option.splits)
qed

lemma exact_cents_rendered:
  "exact_cents (digits_of (n div 100)) (two_digits (n mod 100)) = n"
  by (simp add: exact_cents_def digits_val_digits_of digits_val_two_digits two_digits_digits)

lemma price_of_text_price_text:
  assumes "\<bar>p\<bar> < 2 ^ 51"
  shows "\<exists>s. price_text p = Inr s \<and> price_of_text s = Inr p"
proof -
  define n where "n = nat \<bar>p\<bar>"
  define ip where "ip = digits_of (n div 100)"
  define fp where "fp = two_digits (n mod 100)"
  have ip: "ip \<noteq> []" "list_all is_digit ip"
    by (simp_all add: ip_def digits_of_nonempty digits_of_digits)
  have fp: "list_all is_digit fp" "length fp \<le> 2" "length fp = 2"
    by (simp_all add: fp_def two_digits_digits)
  have ec: "exact_cents ip fp = n"
    by (simp add: ip_def fp_def exact_cents_rendered)
  have n51: "n < 2 ^ 51"
    using assms by (simp add: n_def nat_less_iff)
  have rendered: "price_text p = Inr (CHR ''$'' # (if p < 0 then ''-'' else []) @ ip @ CHR ''.'' # fp)"
    using price_text_exact [OF assms] by (simp add: ip_def fp_def n_def)
  show ?thesis
  proof (cases "p < 0")
    case False
    then have "int n = p" by (simp add: n_def)
    moreover have "price_of_text (''$'' @ ip @ CHR ''.'' # fp) = Inr (int (exact_cents ip fp))"
      using price_of_text_two_decimals [OF ip fp(1,2), of "''$''"] ec n51 by simp
    ultimately show ?thesis
      using rendered False ec by simp
  next
    case True
    then have pn: "p = - int n" by (simp add: n_def)
    let ?t = "ip @ CHR ''.'' # fp"
    have hd_digit: "is_digit (hd ?t)"
      using ip by (cases ip) simp_all
    have last_digit: "is_digit (last ?t)"
      using fp(1,3) by (cases fp) (simp_all add: list_all_iff)
    have no_us: "CHR ''_'' \<notin> set ?t"
      using ip(2) fp(1) is_digit_not_special(1) by (auto simp: list_all_iff)
    have "strip_dollar (''$'' @ CHR ''-'' # ?t) = CHR ''-'' # ?t"
      using last_digit is_digit_not_special(5) by (intro strip_dollar_price) auto
    moreover have "float_of_text (CHR ''-'' # ?t) = Inr (round_to_double (of_int p / 100))"
    proof -
      have "(of_nat (digits_val (ip @ fp)) :: rat) * 10 powi (- int (length fp))
            = of_int (int n) / 100"
        using exact_cents_scaled [OF fp(2), of ip] ec by simp
      then have v: "- ((of_nat (digits_val (ip @ fp)) :: rat) * 10 powi (- int (length fp)))
            = of_int p / 100"
        by (simp add: pn)
      have f: "float_of_text (CHR ''-'' # ?t)
            = Inr (round_to_double
                (- ((of_nat (digits_val (ip @ fp)) :: rat) * 10 powi (- int (length fp)))))"
        using float_of_text_minus [OF _ hd_digit no_us] last_digit is_digit_not_special(7)
          decimal_of_text_point [OF ip fp(1)]
        by simp
      show ?thesis
        by (subst v [symmetric]) (rule f)
    qed
    ultimately have "price_of_text (CHR ''$'' # CHR ''-'' # ?t) = Inr p"
      using cents_parse_exact [OF assms] by (simp add: price_of_text_def)
    then show ?thesis
      using rendered True by simp
  qed
qed

lemma digit_char_literals:
  "digit_char 0 = CHR ''0''" "digit_char 1 = CHR ''1''" "digit_char 2 = CHR ''2''"
  "digit_char 3 = CHR ''3''" "digit_char 4 = CHR ''4''" "digit_char 5 = CHR ''5''"
  "digit_char 6 = CHR ''6''" "digit_char 7 = CHR ''7''" "digit_char 8 = CHR ''8''"
  "digit_char 9 = CHR ''9''" "digit_char (Suc 0) = CHR ''1''"
  by (simp_all add: digit_char_eq_iff)

lemma digits_of_numeral:
  "digits_of (numeral k) =
     (if (numeral k :: nat) < 10 then [digit_char (numeral k)]
      else digits_of (numeral k div 10) @ [digit_char (numeral k mod 10)])"
  by (rule digits_of.simps)

lemma digits_of_small: "digits_of 0 = ''0''" "digits_of (Suc 0) = ''1''"
  by (simp_all add: digits_of.simps [of 0] digits_of.simps [of "Suc 0"] digit_char_literals)


lemmas render_eval = digits_of_numeral digits_of_small digit_char_literals two_digits_def
  str_int_def strftime_def

lemma backup_rows_each:
  assumes "\<forall>r \<in> set tb. \<exists>row. backup_row pad r = Inr row"
  shows "\<exists>rows. backup_rows pad tb = Inr rows \<and> length rows = length tb
           \<and> (\<forall>i < length tb. backup_row pad (tb ! i) = Inr (rows ! i))"
  using assms
proof (induction tb)
  case Nil
  then show ?case by simp
next
  case (Cons r tb)
  then obtain row rows where row: "backup_row pad r = Inr row"
    and rows: "backup_rows pad tb = Inr rows" "length rows = length tb"
      "\<forall>i < length tb. backup_row pad (tb ! i) = Inr (rows ! i)"
    by auto
  have "\<forall>i < length (r # tb). backup_row pad ((r # tb) ! i) = Inr ((row # rows) ! i)"
    using row rows(3) by (auto simp: nth_Cons split: nat.splits)
  then show ?case
    using row rows(1,2) by (intro exI [of _ "row # rows"]) simp
qed

lemma year_of_text_Some:
  "year_of_text s = Some y \<Longrightarrow> length s = 4 \<and> list_all is_digit s \<and> digits_val s = y"
  by (auto simp: year_of_text_def split: if_splits)

text \<open>
  The price text of a price of \<open>p\<close> cents shows a number of cents that is \<open>\<bar>p\<bar>\<close> below
  \<open>2\<^sup>5\<^sup>1\<close> and that is off by at most \<open>\<bar>p\<bar> / 2\<^sup>5\<^sup>1 + 1/2\<close> in general.
\<close>

lemma price_text_cents:
  assumes "in_int64 p"
  shows "\<exists>cents. price_text p = Inr ((if p < 0 then ''$-'' else ''$'')
                       @ digits_of (cents div 100) @ ''.'' @ two_digits (cents mod 100))
           \<and> (\<bar>p\<bar> < 2 ^ 51 \<longrightarrow> int cents = \<bar>p\<bar>)
           \<and> 2 ^ 51 * \<bar>int cents - \<bar>p\<bar>\<bar> \<le> \<bar>p\<bar> + 2 ^ 50"
proof (cases "\<bar>p\<bar> < 2 ^ 51")
  case True
  from price_text_exact [OF True]
  have "price_text p = Inr ((if p < 0 then ''$-'' else ''$'')
          @ digits_of (nat \<bar>p\<bar> div 100) @ ''.'' @ two_digits (nat \<bar>p\<bar> mod 100))"
    by simp
  then show ?thesis
    by (intro exI [of _ "nat \<bar>p\<bar>"]) simp
next
  case False
  then have p0: "p \<noteq> 0" by auto
  define z :: rat where "z = 5764607523034235 / 576460752303423488"
  define b :: rat where "b = \<bar>of_int p\<bar>"
  have b1: "1 \<le> b"
  proof -
    from p0 have "1 \<le> \<bar>p\<bar>" by simp
    then have "(of_int 1 :: rat) \<le> of_int \<bar>p\<bar>" by (simp only: of_int_le_iff)
    then show ?thesis by (simp add: b_def)
  qed
  have b63: "b \<le> 2 ^ 63"
  proof -
    from assms have "\<bar>p\<bar> \<le> 2 ^ 63" by (auto simp: in_int64_def abs_le_iff)
    then have "(of_int \<bar>p\<bar> :: rat) \<le> of_int (2 ^ 63)" by (simp only: of_int_le_iff)
    then show ?thesis by (simp add: b_def)
  qed
  have "1 / 2 ^ 10 \<le> \<bar>of_int p :: rat\<bar>" "\<bar>of_int p :: rat\<bar> < 2 ^ 70"
    using b1 b63 unfolding b_def by simp_all
  from round_to_double_sign [OF this] obtain a where
    a: "round_to_double (of_int p) = Finite a" "\<bar>a - of_int p\<bar> \<le> b / 2 ^ 53"
       "a < 0 \<longleftrightarrow> p < 0" "a \<noteq> 0"
    unfolding b_def by auto
  have "\<bar>\<bar>a\<bar> - \<bar>of_int p :: rat\<bar>\<bar> \<le> \<bar>a - of_int p\<bar>"
    by (rule abs_triangle_ineq3)
  with a(2) have ab: "\<bar>\<bar>a\<bar> - b\<bar> \<le> b / 2 ^ 53"
    unfolding b_def by linarith
  have az: "\<bar>a * z\<bar> = \<bar>a\<bar> * z"
    by (simp add: abs_mult z_def)
  have ab2: "b - b / 2 ^ 53 \<le> \<bar>a\<bar>" "\<bar>a\<bar> \<le> b + b / 2 ^ 53"
    using ab by linarith+
  have "1 / 2 ^ 10 \<le> \<bar>a * z\<bar>" "\<bar>a * z\<bar> < 2 ^ 70"
    unfolding az using ab2 b1 b63 by (simp_all add: z_def)
  from round_to_double_sign [OF this] obtain w where
    w: "round_to_double (a * z) = Finite w" "\<bar>w - a * z\<bar> \<le> \<bar>a\<bar> * z / 2 ^ 53"
       "w < 0 \<longleftrightarrow> a * z < 0"
    unfolding az by auto
  have sign: "w < 0 \<longleftrightarrow> p < 0"
    using w(3) a(3) by (simp add: z_def mult_less_0_iff)
  have "\<bar>\<bar>w\<bar> - \<bar>a * z\<bar>\<bar> \<le> \<bar>w - a * z\<bar>"
    by (rule abs_triangle_ineq3)
  with w(2) have wa: "\<bar>\<bar>w\<bar> - \<bar>a\<bar> * z\<bar> \<le> \<bar>a\<bar> * z / 2 ^ 53"
    unfolding az by linarith
  define r where "r = round_half_even (\<bar>w\<bar> * 100)"
  have rb: "\<bar>of_int r - \<bar>w\<bar> * 100\<bar> \<le> 1 / 2"
    unfolding r_def by (rule round_half_even_bound)
  have wa2: "\<bar>a\<bar> * z - \<bar>a\<bar> * z / 2 ^ 53 \<le> \<bar>w\<bar>" "\<bar>w\<bar> \<le> \<bar>a\<bar> * z + \<bar>a\<bar> * z / 2 ^ 53"
    using wa by linarith+
  have "b - b / 2 ^ 51 \<le> \<bar>w\<bar> * 100" "\<bar>w\<bar> * 100 \<le> b + b / 2 ^ 51"
    using wa2 ab2 b1 unfolding z_def by simp_all
  then have w100: "\<bar>\<bar>w\<bar> * 100 - b\<bar> \<le> b / 2 ^ 51"
    by linarith
  have r0: "0 \<le> r"
  proof (rule ccontr)
    assume "\<not> 0 \<le> r"
    then have "r \<le> - 1" by simp
    then have "(of_int r :: rat) \<le> of_int (- 1)" by (simp only: of_int_le_iff)
    with rb show False by (simp add: abs_le_iff)
  qed
  have "\<bar>of_int r - b\<bar> \<le> b / 2 ^ 51 + 1 / 2"
    using rb w100 by linarith
  then have "2 ^ 51 * \<bar>of_int r - b\<bar> \<le> b + 2 ^ 50"
    by (simp add: field_simps)
  then have "(of_int (2 ^ 51 * \<bar>r - \<bar>p\<bar>\<bar>) :: rat) \<le> of_int (\<bar>p\<bar> + 2 ^ 50)"
    by (simp add: b_def)
  then have bound: "2 ^ 51 * \<bar>r - \<bar>p\<bar>\<bar> \<le> \<bar>p\<bar> + 2 ^ 50"
    by (simp only: of_int_le_iff)
  have "price_text p = Inr ((if p < 0 then ''$-'' else ''$'')
          @ digits_of (nat r div 100) @ ''.'' @ two_digits (nat r mod 100))"
    using a(1) w(1) sign
    by (simp add: price_text_def float_of_int_def round_to_double_cent float_mul_def
        format_2f_def z_def r_def Let_def)
  with bound r0 False show ?thesis
    by (intro exI [of _ "nat r"]) simp
qed

text \<open>The row written for one product.\<close>

lemma backup_row_content:
  assumes "in_int64 (product_price r)" "valid_datetime (date_updated r)"
  shows "\<exists>row. backup_row pad r = Inr row
      \<and> c_product_name row = product_name r
      \<and> c_product_quantity row = str_int (product_quantity r)
      \<and> (\<exists>cents.
            c_product_price row = (if product_price r < 0 then ''$-'' else ''$'')
                @ digits_of (cents div 100) @ ''.'' @ two_digits (cents mod 100)
          \<and> (\<bar>product_price r\<bar> < 2 ^ 51 \<longrightarrow> int cents = \<bar>product_price r\<bar>)
          \<and> 2 ^ 51 * \<bar>int cents - \<bar>product_price r\<bar>\<bar> \<le> \<bar>product_price r\<bar> + 2 ^ 50)
      \<and> (\<exists>yyyy.
            c_date_updated row = two_digits (month (date_updated r)) @ ''/''
                @ two_digits (day (date_updated r)) @ ''/'' @ yyyy
          \<and> list_all is_digit yyyy \<and> digits_val yyyy = year (date_updated r)
          \<and> (pad \<or> 1000 \<le> year (date_updated r) \<longrightarrow> length yyyy = 4))"
proof -
  define d where "d = date_updated r"
  from price_text_cents [OF assms(1)] obtain cents where
    c: "price_text (product_price r) = Inr ((if product_price r < 0 then ''$-'' else ''$'')
          @ digits_of (cents div 100) @ ''.'' @ two_digits (cents mod 100))"
       "\<bar>product_price r\<bar> < 2 ^ 51 \<longrightarrow> int cents = \<bar>product_price r\<bar>"
       "2 ^ 51 * \<bar>int cents - \<bar>product_price r\<bar>\<bar> \<le> \<bar>product_price r\<bar> + 2 ^ 50"
    by blast
  from assms(2) have v: "1 \<le> year d" "year d \<le> 9999"
    by (simp_all add: valid_datetime_def d_def)
  define yyyy where "yyyy = (if pad then replicate (4 - length (digits_of (year d))) (CHR ''0'')
                            else []) @ digits_of (year d)"
  have z: "list_all is_digit (replicate k (CHR ''0''))" for k
    by (simp add: list_all_iff is_digit_def)
  have y1: "list_all is_digit yyyy"
    using z by (simp add: yyyy_def digits_of_digits)
  have y2: "digits_val yyyy = year d"
    by (simp add: yyyy_def digits_val_zeros digits_val_digits_of)
  have y3: "length yyyy = 4" if "pad \<or> 1000 \<le> year d"
    using year_text [OF v that] year_of_text_Some unfolding yyyy_def by blast
  have date: "strftime pad d = two_digits (month d) @ ''/'' @ two_digits (day d) @ ''/'' @ yyyy"
    by (simp add: strftime_def yyyy_def)
  let ?row = "\<lparr>c_product_name = product_name r,
               c_product_quantity = str_int (product_quantity r),
               c_product_price = (if product_price r < 0 then ''$-'' else ''$'')
                 @ digits_of (cents div 100) @ ''.'' @ two_digits (cents mod 100),
               c_date_updated = strftime pad d\<rparr>"
  have "backup_row pad r = Inr ?row"
    using c(1) by (simp add: backup_row_def d_def)
  moreover have "\<exists>cents'.
        c_product_price ?row = (if product_price r < 0 then ''$-'' else ''$'')
            @ digits_of (cents' div 100) @ ''.'' @ two_digits (cents' mod 100)
      \<and> (\<bar>product_price r\<bar> < 2 ^ 51 \<longrightarrow> int cents' = \<bar>product_price r\<bar>)
      \<and> 2 ^ 51 * \<bar>int cents' - \<bar>product_price r\<bar>\<bar> \<le> \<bar>product_price r\<bar> + 2 ^ 50"
    using c(2,3) by (intro exI [of _ cents]) simp
  moreover have "\<exists>yyyy.
        c_date_updated ?row = two_digits (month (date_updated r)) @ ''/''
            @ two_digits (day (date_updated r)) @ ''/'' @ yyyy
      \<and> list_all is_digit yyyy \<and> digits_val yyyy = year (date_updated r)
      \<and> (pad \<or> 1000 \<le> year (date_updated r) \<longrightarrow> length yyyy = 4)"
    using date y1 y2 y3 by (intro exI [of _ yyyy]) (simp add: d_def)
  ultimately show ?thesis
    by (intro exI [of _ ?row]) simp
qed

text \<open>What reading back the row written for a product gives.\<close>

lemma csv_entry_backup_row:
  assumes "\<bar>product_price r\<bar> < 2 ^ 51" "valid_datetime (date_updated r)"
    and "pad \<or> 1000 \<le> year (date_updated r)"
  shows "\<exists>row. backup_row pad r = Inr row
      \<and> csv_entry row = Inr \<lparr>d_product_name = product_name r,
                              d_product_quantity = PyStr (str_int (product_quantity r)),
                              d_product_price = product_price r,
                              d_date_updated = midnight (date_updated r)\<rparr>"
proof -
  from price_of_text_price_text [OF assms(1)] obtain s where
    s: "price_text (product_price r) = Inr s" "price_of_text s = Inr (product_price r)"
    by blast
  let ?row = "\<lparr>c_product_name = product_name r,
               c_product_quantity = str_int (product_quantity r),
               c_product_price = s,
               c_date_updated = strftime pad (date_updated r)\<rparr>"
  have "backup_row pad r = Inr ?row"
    using s(1) by (simp add: backup_row_def)
  moreover have "csv_entry ?row = Inr \<lparr>d_product_name = product_name r,
                              d_product_quantity = PyStr (str_int (product_quantity r)),
                              d_product_price = product_price r,
                              d_date_updated = midnight (date_updated r)\<rparr>"
    using s(2) strptime_strftime [OF assms(2,3)] by (simp add: csv_entry_def)
  ultimately show ?thesis by blast
qed

lemma reconcile_fresh_name:
  assumes "d_product_name e \<notin> set (map product_name acc)"
    and "py_int (d_product_quantity e) = Inr q" "in_int64 q" "in_int64 (d_product_price e)"
  shows "reconcile e acc =
           Inr (acc @ [\<lparr>product_id = next_id acc, product_name = d_product_name e,
                         product_quantity = q, product_price = d_product_price e,
                         date_updated = d_date_updated e\<rparr>])"
  using assms by (simp add: reconcile_def add_entry_def Product_create_def)

text \<open>Importing the rows written for a table with fresh names appends its tuples.\<close>

lemma add_csv_backup_fresh:
  assumes "backup_rows pad tb = Inr rows"
    and "distinct (map product_name tb)"
    and "set (map product_name tb) \<inter> set (map product_name acc) = {}"
    and "\<forall>r \<in> set tb. in_int64 (product_quantity r) \<and> \<bar>product_price r\<bar> < 2 ^ 51
            \<and> valid_datetime (date_updated r) \<and> (pad \<or> 1000 \<le> year (date_updated r))"
  shows "\<exists>new. add_csv rows acc = (acc @ new, None)
           \<and> map (\<lambda>r. (product_name r, product_quantity r, product_price r, date_updated r)) new
             = map (\<lambda>r. (product_name r, product_quantity r, product_price r,
                          midnight (date_updated r))) tb"
  using assms
proof (induction tb arbitrary: rows acc)
  case Nil
  then show ?case by simp
next
  case (Cons r tb)
  from Cons.prems(4) have r: "in_int64 (product_quantity r)" "\<bar>product_price r\<bar> < 2 ^ 51"
    "valid_datetime (date_updated r)" "pad \<or> 1000 \<le> year (date_updated r)"
    by simp_all
  from csv_entry_backup_row [OF r(2,3,4)] obtain row where
    row: "backup_row pad r = Inr row"
      "csv_entry row = Inr \<lparr>d_product_name = product_name r,
                              d_product_quantity = PyStr (str_int (product_quantity r)),
                              d_product_price = product_price r,
                              d_date_updated = midnight (date_updated r)\<rparr>"
    by blast
  from Cons.prems(1) row(1) obtain rest where
    rest: "backup_rows pad tb = Inr rest" "rows = row # rest"
    by (auto split: sum.splits)
  define p where "p = \<lparr>product_id = next_id acc, product_name = product_name r,
      product_quantity = product_quantity r, product_price = product_price r,
      date_updated = midnight (date_updated r)\<rparr>"
  have p64: "in_int64 (product_price r)"
    using r(2) by (auto simp: in_int64_def abs_less_iff)
  have fresh: "product_name r \<notin> set (map product_name acc)"
    using Cons.prems(3) by auto
  have step: "reconcile \<lparr>d_product_name = product_name r,
                          d_product_quantity = PyStr (str_int (product_quantity r)),
                          d_product_price = product_price r,
                          d_date_updated = midnight (date_updated r)\<rparr> acc
              = Inr (acc @ [p])"
    using reconcile_fresh_name [of _ acc "product_quantity r"] fresh r(1) p64
    by (simp add: int_of_text_str_int p_def)
  have "set (map product_name tb) \<inter> set (map product_name (acc @ [p])) = {}"
    using Cons.prems(2,3) by (auto simp: p_def)
  with Cons.IH [OF rest(1), of "acc @ [p]"] Cons.prems(2,4) obtain new where
    new: "add_csv rest (acc @ [p]) = ((acc @ [p]) @ new, None)"
      "map (\<lambda>r. (product_name r, product_quantity r, product_price r, date_updated r)) new
       = map (\<lambda>r. (product_name r, product_quantity r, product_price r,
                    midnight (date_updated r))) tb"
    by auto
  have "add_csv rows acc = (acc @ (p # new), None)"
    using row(2) step new(1) by (simp add: rest(2))
  moreover have "map (\<lambda>r. (product_name r, product_quantity r, product_price r,
                           date_updated r)) (p # new)
       = map (\<lambda>r. (product_name r, product_quantity r, product_price r,
                    midnight (date_updated r))) (r # tb)"
    using new(2) by (simp add: p_def)
  ultimately show ?case by blast
qed

lemma midnight_not_later: "dt_ge (midnight d) d \<Longrightarrow> midnight d = d"
  by (auto simp: dt_ge_def dt_key_def midnight_def less_eq_prod_def)

text \<open>Importing the row written for a stored product into the same table changes nothing.\<close>

lemma reconcile_own_backup:
  assumes "wf_table tb" "r \<in> set tb"
  shows "reconcile \<lparr>d_product_name = product_name r,
                    d_product_quantity = PyStr (str_int (product_quantity r)),
                    d_product_price = product_price r,
                    d_date_updated = midnight (date_updated r)\<rparr> tb = Inr tb"
proof -
  let ?e = "\<lparr>d_product_name = product_name r,
             d_product_quantity = PyStr (str_int (product_quantity r)),
             d_product_price = product_price r,
             d_date_updated = midnight (date_updated r)\<rparr>"
  have r64: "in_int64 (product_quantity r)" "in_int64 (product_price r)"
    using assms by (auto simp: wf_table_def list_all_iff)
  let ?upd = "\<lambda>x. if x = r
                 then x\<lparr>product_quantity := product_quantity r,
                        product_price := product_price r,
                        date_updated := midnight (date_updated r)\<rparr>
                 else x"
  have "reconcile ?e tb =
      (if dt_ge (d_date_updated ?e) (date_updated r)
       then Inr (map (\<lambda>x. if x = r
                 then x\<lparr>product_quantity := product_quantity r,
                        product_price := d_product_price ?e,
                        date_updated := d_date_updated ?e\<rparr>
                 else x) tb)
       else Inr tb)"
    using r64 by (intro reconcile_duplicate [OF assms]) (simp_all add: int_of_text_str_int)
  then have rec: "reconcile ?e tb =
      (if dt_ge (midnight (date_updated r)) (date_updated r) then Inr (map ?upd tb) else Inr tb)"
    by simp
  show ?thesis
  proof (cases "dt_ge (midnight (date_updated r)) (date_updated r)")
    case True
    then have "midnight (date_updated r) = date_updated r"
      by (rule midnight_not_later)
    then have "map ?upd tb = tb"
      by (intro map_idI) simp
    then show ?thesis
      by (simp only: rec True if_True)
  next
    case False
    then show ?thesis
      by (simp only: rec if_False)
  qed
qed

lemma add_csv_backup_same:
  assumes "wf_table tb" "set sub \<subseteq> set tb" "backup_rows pad sub = Inr rows"
    and "\<forall>r \<in> set sub. \<bar>product_price r\<bar> < 2 ^ 51
            \<and> valid_datetime (date_updated r) \<and> (pad \<or> 1000 \<le> year (date_updated r))"
  shows "add_csv rows tb = (tb, None)"
  using assms(2-4)
proof (induction sub arbitrary: rows)
  case Nil
  then show ?case by simp
next
  case (Cons r sub)
  from Cons.prems(3) have r: "\<bar>product_price r\<bar> < 2 ^ 51"
    "valid_datetime (date_updated r)" "pad \<or> 1000 \<le> year (date_updated r)"
    by simp_all
  from csv_entry_backup_row [OF r] obtain row where
    row: "backup_row pad r = Inr row"
      "csv_entry row = Inr \<lparr>d_product_name = product_name r,
                              d_product_quantity = PyStr (str_int (product_quantity r)),
                              d_product_price = product_price r,
                              d_date_updated = midnight (date_updated r)\<rparr>"
    by blast
  from Cons.prems(2) row(1) obtain rest where
    rest: "backup_rows pad sub = Inr rest" "rows = row # rest"
    by (auto split: sum.splits)
  have "r \<in> set tb" using Cons.prems(1) by simp
  from reconcile_own_backup [OF assms(1) this] row(2)
  have "add_csv rows tb = add_csv rest tb"
    by (simp add: rest(2))
  moreover have "add_csv rest tb = (tb, None)"
    using Cons.IH [OF _ rest(1)] Cons.prems(1,3) by simp
  ultimately show ?case by simp
qed

lemma round_half_even_tie_up:
  assumes "q = of_int n - 1 / 2" "even n"
  shows "round_half_even q = n"
proof -
  from assms(1) have "\<lfloor>q\<rfloor> = n - 1" by linarith
  with assms show ?thesis
    unfolding round_half_even_def Let_def by simp
qed

lemma price_53_37: "price_of_text ''53000000000000.37'' = Inr 5300000000000037"
proof -
  have t: "float_of_text (strip_dollar ''53000000000000.37'')
           = Inr (round_to_double (5300000000000037 / 100))"
    by (simp add: float_text_eval)
  have r1: "round_half_even (\<bar>5300000000000037 / 100\<bar> / 2 powi (45 - 52))
            = 6784000000000047"
    by (rule round_half_even_unique) simp
  have x: "round_to_double (5300000000000037 / 100) = Finite (6784000000000047 / 128)"
    using round_to_double_normal [of 45 "5300000000000037 / 100"] r1 by simp
  have r2: "round_half_even (\<bar>6784000000000047 / 128 * 100\<bar> / 2 powi (52 - 52))
            = 5300000000000037"
    by (rule round_half_even_unique) simp
  have y: "round_to_double (6784000000000047 / 128 * 100) = Finite 5300000000000037"
    using round_to_double_normal [of 52 "6784000000000047 / 128 * 100"] r2 by simp
  from t x y show ?thesis
    by (simp add: price_of_text_def float_mul_def py_round_def)
qed

lemma price_53_38: "price_of_text ''$53000000000000.38'' = Inr 5300000000000038"
proof -
  have t: "float_of_text (strip_dollar ''$53000000000000.38'')
           = Inr (round_to_double (2650000000000019 / 50))"
    by (simp add: float_text_eval)
  have r1: "round_half_even (\<bar>2650000000000019 / 50\<bar> / 2 powi (45 - 52))
            = 6784000000000049"
    by (rule round_half_even_unique) simp
  have x: "round_to_double (2650000000000019 / 50) = Finite (6784000000000049 / 128)"
    using round_to_double_normal [of 45 "2650000000000019 / 50"] r1 by simp
  have r2: "round_half_even (\<bar>6784000000000049 / 128 * 100\<bar> / 2 powi (52 - 52))
            = 5300000000000038"
    by (rule round_half_even_unique) simp
  have y: "round_to_double (6784000000000049 / 128 * 100) = Finite 5300000000000038"
    using round_to_double_normal [of 52 "6784000000000049 / 128 * 100"] r2 by simp
  from t x y show ?thesis
    by (simp add: price_of_text_def float_mul_def py_round_def)
qed

lemma price_text_53_37: "price_text 5300000000000037 = Inr ''$53000000000000.38''"
proof -
  have a: "round_to_double (of_int 5300000000000037) = Finite (of_int 5300000000000037)"
    by (rule round_to_double_of_int) simp
  have r1: "round_half_even (\<bar>5300000000000037 * (5764607523034235 / 576460752303423488)\<bar>
                              / 2 powi (45 - 52)) = 6784000000000048"
    by (rule round_half_even_unique) simp
  have w: "round_to_double (5300000000000037 * (5764607523034235 / 576460752303423488))
           = Finite (424000000000003 / 8)"
    using round_to_double_normal
      [of 45 "5300000000000037 * (5764607523034235 / 576460752303423488)"] r1
    by simp
  have "round_half_even (10600000000000075 / 2) = 5300000000000038"
    by (rule round_half_even_tie_up) simp_all
  with a w show ?thesis
    by (simp add: price_text_def float_of_int_def round_to_double_cent float_mul_def format_2f_def
        render_eval)
qed


lemma price_minus_5: "price_of_text ''$-5.00'' = Inr (- 500)"
proof -
  have t: "float_of_text (strip_dollar ''$-5.00'') = Inr (round_to_double (- 5))"
    by (simp add: float_text_eval)
  have x: "round_to_double (- 5) = Finite (- 5)"
    using round_to_double_of_int [of "- 5"] by simp
  have y: "round_to_double (- 500) = Finite (- 500)"
    using round_to_double_of_int [of "- 500"] by simp
  have r: "round_half_even (- 500) = - 500"
    using round_half_even_of_int [of "- 500"] by simp
  from t x y r show ?thesis
    by (simp add: price_of_text_def float_mul_def py_round_def)
qed


section \<open>The claims\<close>

subsection \<open>Reconciliation of a row whose name is taken\<close>

text \<open>
  Claim C1. An incoming record whose name is that of a stored record and whose
  \<^verbatim>\<open>date_updated\<close> is greater than or equal to the stored one makes the reconciliation
  overwrite the stored record's quantity, price and \<^verbatim>\<open>date_updated\<close> with the incoming
  ones; equal timestamps overwrite too. The incoming record is one the table can take:
  its quantity converts to an \<^verbatim>\<open>int\<close> and its numbers fit the integer columns.
\<close>

theorem reconcile_updates_when_not_older:
  assumes "wf_table tb" and "existing \<in> set tb"
    and "d_product_name row = product_name existing"
    and "dt_ge (d_date_updated row) (date_updated existing)"
    and "py_int (d_product_quantity row) = Inr q"
    and "in_int64 q" and "in_int64 (d_product_price row)"
  shows "reconcile row tb =
           Inr (map (\<lambda>r. if r = existing
                           then r\<lparr>product_quantity := q,
                                  product_price := d_product_price row,
                                  date_updated := d_date_updated row\<rparr>
                           else r) tb)"
  using reconcile_duplicate [OF assms(1,2,3,5,6,7)] assms(4) by simp

text \<open>Equal timestamps: the incoming record wins.\<close>

theorem reconcile_updates_when_not_older_witness:
  "reconcile
     \<lparr>d_product_name = ''Widget'', d_product_quantity = PyStr ''20'', d_product_price = 600,
      d_date_updated = datetime_ymd 2020 1 1\<rparr>
     [\<lparr>product_id = 1, product_name = ''Widget'', product_quantity = 10, product_price = 500,
       date_updated = datetime_ymd 2020 1 1\<rparr>]
   = Inr [\<lparr>product_id = 1, product_name = ''Widget'', product_quantity = 20,
           product_price = 600, date_updated = datetime_ymd 2020 1 1\<rparr>]"
  using reconcile_updates_when_not_older
    [of "[\<lparr>product_id = 1, product_name = ''Widget'', product_quantity = 10,
           product_price = 500, date_updated = datetime_ymd 2020 1 1\<rparr>]"
        "\<lparr>product_id = 1, product_name = ''Widget'', product_quantity = 10,
          product_price = 500, date_updated = datetime_ymd 2020 1 1\<rparr>"
        "\<lparr>d_product_name = ''Widget'', d_product_quantity = PyStr ''20'',
          d_product_price = 600, d_date_updated = datetime_ymd 2020 1 1\<rparr>"
        20]
  by (simp add: wf_table_def in_int64_def text_eval date_eval)

text \<open>
  Claim C3. An incoming record whose name is that of a stored record and whose
  \<^verbatim>\<open>date_updated\<close> is strictly less than the stored one leaves the table as it is:
  nothing is overwritten and nothing is inserted.
\<close>

theorem reconcile_older_leaves_table:
  assumes "wf_table tb" and "existing \<in> set tb"
    and "d_product_name row = product_name existing"
    and "dt_key (d_date_updated row) < dt_key (date_updated existing)"
    and "py_int (d_product_quantity row) = Inr q"
    and "in_int64 q" and "in_int64 (d_product_price row)"
  shows "reconcile row tb = Inr tb"
proof -
  from assms(4) have "\<not> dt_ge (d_date_updated row) (date_updated existing)"
    by (simp add: dt_ge_def less_le_not_le)
  with reconcile_duplicate [OF assms(1,2,3,5,6,7)] show ?thesis
    by simp
qed

theorem reconcile_older_leaves_table_witness:
  "reconcile
     \<lparr>d_product_name = ''Widget'', d_product_quantity = PyStr ''20'', d_product_price = 600,
      d_date_updated = datetime_ymd 2019 12 31\<rparr>
     [\<lparr>product_id = 1, product_name = ''Widget'', product_quantity = 10, product_price = 500,
       date_updated = datetime_ymd 2020 1 1\<rparr>]
   = Inr [\<lparr>product_id = 1, product_name = ''Widget'', product_quantity = 10,
           product_price = 500, date_updated = datetime_ymd 2020 1 1\<rparr>]"
  using reconcile_older_leaves_table
    [of "[\<lparr>product_id = 1, product_name = ''Widget'', product_quantity = 10,
           product_price = 500, date_updated = datetime_ymd 2020 1 1\<rparr>]"
        "\<lparr>product_id = 1, product_name = ''Widget'', product_quantity = 10,
          product_price = 500, date_updated = datetime_ymd 2020 1 1\<rparr>"
        "\<lparr>d_product_name = ''Widget'', d_product_quantity = PyStr ''20'',
          d_product_price = 600, d_date_updated = datetime_ymd 2019 12 31\<rparr>"
        20]
  by (simp add: wf_table_def in_int64_def text_eval date_eval)

text \<open>
  Claim C4. An incoming record whose name is that of a stored record and whose
  \<^verbatim>\<open>date_updated\<close> is strictly greater than the stored one: afterwards the stored record
  carries the incoming quantity, price and \<^verbatim>\<open>date_updated\<close>, its name and id are the
  old ones, and every other row of the table is as it was.
\<close>

theorem reconcile_newer_overwrites_fields:
  assumes "wf_table tb" and "existing \<in> set tb"
    and "d_product_name row = product_name existing"
    and "dt_key (date_updated existing) < dt_key (d_date_updated row)"
    and "py_int (d_product_quantity row) = Inr q"
    and "in_int64 q" and "in_int64 (d_product_price row)"
  shows "\<exists>tb'. reconcile row tb = Inr tb' \<and> length tb' = length tb
           \<and> (\<forall>i < length tb.
                 if tb ! i = existing
                 then product_id (tb' ! i) = product_id existing
                    \<and> product_name (tb' ! i) = product_name existing
                    \<and> product_quantity (tb' ! i) = q
                    \<and> product_price (tb' ! i) = d_product_price row
                    \<and> date_updated (tb' ! i) = d_date_updated row
                 else tb' ! i = tb ! i)"
proof -
  from assms(4) have "dt_ge (d_date_updated row) (date_updated existing)"
    by (simp add: dt_ge_def less_imp_le)
  with reconcile_duplicate [OF assms(1,2,3,5,6,7)]
  have "reconcile row tb =
          Inr (map (\<lambda>r. if r = existing
                          then r\<lparr>product_quantity := q,
                                 product_price := d_product_price row,
                                 date_updated := d_date_updated row\<rparr>
                          else r) tb)"
    by simp
  then show ?thesis by simp
qed

theorem reconcile_newer_overwrites_fields_witness:
  "\<exists>tb'. reconcile
       \<lparr>d_product_name = ''Widget'', d_product_quantity = PyStr ''20'',
        d_product_price = 600, d_date_updated = datetime_ymd 2020 1 2\<rparr>
       [\<lparr>product_id = 1, product_name = ''Widget'', product_quantity = 10,
         product_price = 500, date_updated = datetime_ymd 2020 1 1\<rparr>,
        \<lparr>product_id = 2, product_name = ''Gadget'', product_quantity = 3,
         product_price = 250, date_updated = datetime_ymd 2020 1 1\<rparr>] = Inr tb'
     \<and> product_quantity (tb' ! 0) = 20 \<and> product_price (tb' ! 0) = 600
     \<and> date_updated (tb' ! 0) = datetime_ymd 2020 1 2
     \<and> product_id (tb' ! 0) = 1 \<and> product_name (tb' ! 0) = ''Widget''
     \<and> tb' ! 1 = \<lparr>product_id = 2, product_name = ''Gadget'', product_quantity = 3,
                    product_price = 250, date_updated = datetime_ymd 2020 1 1\<rparr>"
  using reconcile_newer_overwrites_fields
    [of "[\<lparr>product_id = 1, product_name = ''Widget'', product_quantity = 10,
           product_price = 500, date_updated = datetime_ymd 2020 1 1\<rparr>,
          \<lparr>product_id = 2, product_name = ''Gadget'', product_quantity = 3,
           product_price = 250, date_updated = datetime_ymd 2020 1 1\<rparr>]"
        "\<lparr>product_id = 1, product_name = ''Widget'', product_quantity = 10,
          product_price = 500, date_updated = datetime_ymd 2020 1 1\<rparr>"
        "\<lparr>d_product_name = ''Widget'', d_product_quantity = PyStr ''20'',
          d_product_price = 600, d_date_updated = datetime_ymd 2020 1 2\<rparr>"
        20]
  by (auto simp add: wf_table_def in_int64_def text_eval date_eval numeral_2_eq_2 All_less_Suc)


subsection \<open>One record per name\<close>

text \<open>
  Claim C9. Every operation keeps the table with exactly one record per product name:
  \<^verbatim>\<open>Product.create\<close> refuses a name that is taken and otherwise keeps the schema's
  guarantees, and so do the import of any rows, the interactive addition and
  \<^verbatim>\<open>update_duplicate\<close>; those guarantees include that no two rows share a name.
\<close>

theorem one_record_per_name_preserved:
  assumes "wf_table tb"
  shows "(n \<in> set (map product_name tb) \<longrightarrow> (\<forall>tb'. Product_create n q p d tb \<noteq> Inr tb'))
       \<and> (\<forall>tb'. Product_create n q p d tb = Inr tb' \<longrightarrow> wf_table tb')
       \<and> wf_table (fst (add_csv rows tb))
       \<and> (\<forall>tb'. store_new_product n p q now answers tb = Inr tb' \<longrightarrow> wf_table tb')
       \<and> (\<forall>tb'. update_duplicate dictionary existing tb = Inr tb' \<longrightarrow> wf_table tb')
       \<and> (\<forall>t. wf_table t \<longrightarrow> distinct (map product_name t))"
proof -
  have "n \<in> set (map product_name tb) \<longrightarrow> (\<forall>tb'. Product_create n q p d tb \<noteq> Inr tb')"
    by (simp add: Product_create_def)
  moreover have "\<forall>tb'. Product_create n q p d tb = Inr tb' \<longrightarrow> wf_table tb'"
    using assms wf_table_create by blast
  moreover have "wf_table (fst (add_csv rows tb))"
    using assms by (rule wf_table_add_csv)
  moreover have "\<forall>tb'. store_new_product n p q now answers tb = Inr tb' \<longrightarrow> wf_table tb'"
    using assms wf_table_store_new_product by blast
  moreover have "\<forall>tb'. update_duplicate dictionary existing tb = Inr tb' \<longrightarrow> wf_table tb'"
    using assms wf_table_update_duplicate by blast
  moreover have "\<forall>t. wf_table t \<longrightarrow> distinct (map product_name t)"
    by (simp add: wf_table_def)
  ultimately show ?thesis by blast
qed

theorem one_record_per_name_preserved_witness:
  "wf_table [\<lparr>product_id = 1, product_name = ''Widget'', product_quantity = 10,
              product_price = 500, date_updated = datetime_ymd 2020 1 1\<rparr>]
   \<and> Product_create ''Widget'' 20 600 (datetime_ymd 2020 1 2)
        [\<lparr>product_id = 1, product_name = ''Widget'', product_quantity = 10,
          product_price = 500, date_updated = datetime_ymd 2020 1 1\<rparr>] = Inl IntegrityError
   \<and> distinct (map product_name (fst (add_csv
        [\<lparr>c_product_name = ''Widget'', c_product_quantity = ''20'',
          c_product_price = ''$6.00'', c_date_updated = ''01/02/2020''\<rparr>,
         \<lparr>c_product_name = ''Gadget'', c_product_quantity = ''3'',
          c_product_price = ''$2.50'', c_date_updated = ''01/02/2020''\<rparr>]
        [\<lparr>product_id = 1, product_name = ''Widget'', product_quantity = 10,
          product_price = 500, date_updated = datetime_ymd 2020 1 1\<rparr>])))"
proof -
  let ?tb = "[\<lparr>product_id = 1, product_name = ''Widget'', product_quantity = 10,
               product_price = 500, date_updated = datetime_ymd 2020 1 1\<rparr>]"
  let ?rows = "[\<lparr>c_product_name = ''Widget'', c_product_quantity = ''20'',
                 c_product_price = ''$6.00'', c_date_updated = ''01/02/2020''\<rparr>,
                \<lparr>c_product_name = ''Gadget'', c_product_quantity = ''3'',
                 c_product_price = ''$2.50'', c_date_updated = ''01/02/2020''\<rparr>]"
  have wf: "wf_table ?tb"
    by (simp add: wf_table_def in_int64_def)
  have "Product_create ''Widget'' 20 600 (datetime_ymd 2020 1 2) ?tb = Inl IntegrityError"
    by (simp add: Product_create_def in_int64_def)
  moreover from one_record_per_name_preserved [OF wf, of _ _ _ _ ?rows]
  have "distinct (map product_name (fst (add_csv ?rows ?tb)))"
    by blast
  ultimately show ?thesis using wf by simp
qed

subsection \<open>The price asked for interactively\<close>

text \<open>
  Claim C10. An answer to the price prompt that contains no point is rejected and the
  prompt is repeated with the next answer, also when the text is a whole-dollar amount
  that the price conversion itself accepts; an answer that is accepted contains a point.
\<close>

theorem price_without_point_rejected:
  "(CHR ''.'' \<notin> set s \<longrightarrow>
      price_attempt s = Inl ValueError \<and> prompt_price (s # rest) = prompt_price rest)
   \<and> (price_attempt s = Inr p \<longrightarrow> CHR ''.'' \<in> set s)"
  by (auto simp: price_attempt_def decimal_check_def)

theorem price_without_point_rejected_witness:
  "price_of_text ''$5'' = Inr 500 \<and> price_attempt ''$5'' = Inl ValueError
   \<and> price_attempt ''5'' = Inl ValueError
   \<and> prompt_price [''5'', ''$5'', ''$5.00''] = (Inr 500, [])"
proof -
  have "price_attempt ''$5'' = Inl ValueError"
       "prompt_price [''$5'', ''$5.00''] = prompt_price [''$5.00'']"
    using price_without_point_rejected [of "''$5''" "[''$5.00'']"] by simp_all
  moreover have "price_attempt ''5'' = Inl ValueError"
       "prompt_price [''5'', ''$5'', ''$5.00''] = prompt_price [''$5'', ''$5.00'']"
    using price_without_point_rejected [of "''5''" "[''$5'', ''$5.00'']"] by simp_all
  moreover have "price_attempt ''$5.00'' = Inr 500"
    by (simp add: price_attempt_def decimal_check_def price_eval)
  moreover have "price_of_text ''$5'' = Inr 500"
    by (simp add: price_eval)
  ultimately show ?thesis by simp
qed

subsection \<open>A row that does not parse\<close>

text \<open>
  Claim C2. A row whose price or date does not parse is to be skipped, the import going on
  with the rows after it. The code does otherwise: \<^verbatim>\<open>add_csv\<close> converts the date and the
  price outside its \<^verbatim>\<open>try\<close>, which catches \<^verbatim>\<open>IntegrityError\<close> only, so the
  \<^verbatim>\<open>ValueError\<close> ends the import. Of five rows whose third has the price \<^verbatim>\<open>3.x0\<close>, the
  first two are stored and the last two are never read. The price prompt of
  \<^verbatim>\<open>add_new_product\<close> catches the same error on the same text and asks again.
\<close>

theorem malformed_price_aborts_import:
  "add_csv
     [\<lparr>c_product_name = ''Apple'', c_product_quantity = ''1'', c_product_price = ''$1.00'',
       c_date_updated = ''01/01/2020''\<rparr>,
      \<lparr>c_product_name = ''Bread'', c_product_quantity = ''2'', c_product_price = ''$2.00'',
       c_date_updated = ''01/02/2020''\<rparr>,
      \<lparr>c_product_name = ''Cocoa'', c_product_quantity = ''3'', c_product_price = ''3.x0'',
       c_date_updated = ''01/03/2020''\<rparr>,
      \<lparr>c_product_name = ''Dates'', c_product_quantity = ''4'', c_product_price = ''$4.00'',
       c_date_updated = ''01/04/2020''\<rparr>,
      \<lparr>c_product_name = ''Eggs'', c_product_quantity = ''5'', c_product_price = ''$5.00'',
       c_date_updated = ''01/05/2020''\<rparr>] []
   = ([\<lparr>product_id = 1, product_name = ''Apple'', product_quantity = 1, product_price = 100,
        date_updated = datetime_ymd 2020 1 1\<rparr>,
       \<lparr>product_id = 2, product_name = ''Bread'', product_quantity = 2, product_price = 200,
        date_updated = datetime_ymd 2020 1 2\<rparr>], Some ValueError)
   \<and> prompt_price [''3.x0'', ''3.00''] = (Inr 300, [])"
  by (simp add: csv_eval price_attempt_def decimal_check_def)

subsection \<open>More than two decimals\<close>

text \<open>
  Claim C5. A price with more than two digits after the point is to be rejected on the
  interactive path and on the import path. The interactive path rejects \<^verbatim>\<open>$12.345\<close>
  with \<^verbatim>\<open>InputError\<close>; the import path has no such check and stores 1234 cents for it.
\<close>

theorem csv_import_keeps_third_decimal:
  "price_attempt ''$12.345'' = Inl InputError
   \<and> add_csv
        [\<lparr>c_product_name = ''Widget'', c_product_quantity = ''10'',
          c_product_price = ''$12.345'', c_date_updated = ''01/01/2020''\<rparr>] []
      = ([\<lparr>product_id = 1, product_name = ''Widget'', product_quantity = 10,
           product_price = 1234, date_updated = datetime_ymd 2020 1 1\<rparr>], None)"
  by (simp add: price_attempt_def decimal_check_def csv_entry_def price_12_345 date_core
      table_eval text_eval datetime_ymd_def)


subsection \<open>Prices with at most two decimals\<close>

text \<open>
  Claim C6, as the code has it. A price text made of an optional \<^verbatim>\<open>$\<close>, digits and
  optionally a point and at most two digits converts to exactly the number of cents it
  denotes, provided that number is below \<open>2\<^sup>5\<^sup>1\<close>: the two roundings of the binary
  floating-point computation then stay within half a cent.
\<close>

theorem two_decimal_price_exact:
  assumes "ip \<noteq> []" and "list_all is_digit ip" and "list_all is_digit fp"
    and "length fp \<le> 2" and "exact_cents ip fp < 2 ^ 51"
    and "dollar = [] \<or> dollar = ''$''"
  shows "price_of_text (dollar @ ip @ CHR ''.'' # fp) = Inr (int (exact_cents ip fp))
       \<and> (fp = [] \<longrightarrow> price_of_text (dollar @ ip) = Inr (int (exact_cents ip fp)))"
  using assms by (rule price_of_text_two_decimals)

text \<open>The examples of the specification: \<^verbatim>\<open>$12.3\<close> is 1230 cents, \<^verbatim>\<open>12.00\<close> is 1200.\<close>

theorem two_decimal_price_exact_witness:
  "price_of_text ''$12.3'' = Inr 1230 \<and> price_of_text ''12.00'' = Inr 1200
   \<and> price_of_text ''$7'' = Inr 700"
proof -
  have "price_of_text ''$12.3'' = Inr 1230"
    using two_decimal_price_exact [of "''12''" "''3''" "''$''"]
    by (simp add: exact_cents_def is_digit_def digits_val_def digit_val_def)
  moreover have "price_of_text ''12.00'' = Inr 1200"
    using two_decimal_price_exact [of "''12''" "''00''" "[]"]
    by (simp add: exact_cents_def is_digit_def digits_val_def digit_val_def)
  moreover have "price_of_text ''$7'' = Inr 700"
    using two_decimal_price_exact [of "''7''" "[]" "''$''"]
    by (simp add: exact_cents_def is_digit_def digits_val_def digit_val_def)
  ultimately show ?thesis by simp
qed

text \<open>
  Without the bound the claim fails: \<^verbatim>\<open>40000000000000.05\<close> has two decimals and
  denotes 4000000000000005 cents, and the conversion returns 4000000000000004.
\<close>

theorem large_price_off_by_a_cent:
  "exact_cents ''40000000000000'' ''05'' = 4000000000000005
   \<and> price_of_text ''40000000000000.05'' = Inr 4000000000000004"
proof -
  have t: "float_of_text (strip_dollar ''40000000000000.05'')
           = Inr (round_to_double (800000000000001 / 20))"
    by (simp add: float_text_eval)
  have r1: "round_half_even (\<bar>800000000000001 / 20\<bar> / 2 powi (45 - 52)) = 5120000000000006"
    by (rule round_half_even_unique) simp
  have x: "round_to_double (800000000000001 / 20) = Finite (2560000000000003 / 64)"
    using round_to_double_normal [of 45 "800000000000001 / 20"] r1 by simp
  have r2: "round_half_even (\<bar>2560000000000003 / 64 * 100\<bar> / 2 powi (51 - 52))
            = 8000000000000009"
    by (rule round_half_even_unique) simp
  have y: "round_to_double (2560000000000003 / 64 * 100) = Finite (8000000000000009 / 2)"
    using round_to_double_normal [of 51 "2560000000000003 / 64 * 100"] r2 by simp
  have "round_half_even (8000000000000009 / 2) = 4000000000000004"
    by (rule round_half_even_tie) simp_all
  with t x y have "price_of_text ''40000000000000.05'' = Inr 4000000000000004"
    by (simp add: price_of_text_def float_mul_def py_round_def)
  moreover have "exact_cents ''40000000000000'' ''05'' = 4000000000000005"
    by (simp add: exact_cents_def digits_val_def digit_val_def)
  ultimately show ?thesis by simp
qed


subsection \<open>The backup file\<close>

text \<open>
  Claim C8, as the code has it. For a table that satisfies the schema and holds dates of
  the \<^verbatim>\<open>datetime\<close> type, the backup writes the header \<^verbatim>\<open>product_name, product_price,
  product_quantity, date_updated\<close> and exactly one row per stored product, in the order of
  the table, which is by ascending id. The name is the stored name and the quantity the
  decimal text of the stored quantity. The price is a \<^verbatim>\<open>$\<close>, a minus sign when the stored
  price is negative, the digits of the dollars, a point and two digits of cents; the cents
  shown are the absolute value of the stored price when that is below \<open>2\<^sup>5\<^sup>1\<close>, and
  within \<open>\<bar>p\<bar> / 2\<^sup>5\<^sup>1 + 1/2\<close> of it for any stored price \<open>p\<close>. The date is two digits of
  month, a slash, two digits of day, a slash and the digits of the year, which are four
  from the year 1000 on or where the C library pads \<^verbatim>\<open>%Y\<close>.
\<close>

theorem backup_writes_each_product:
  assumes "wf_table tb" and "\<forall>r \<in> set tb. valid_datetime (date_updated r)"
  shows "\<exists>rows.
      backup_database pad tb
        = Inr ([''product_name'', ''product_price'', ''product_quantity'', ''date_updated''],
               rows)
    \<and> length rows = length tb
    \<and> (\<forall>i j. i < j \<and> j < length tb \<longrightarrow> product_id (tb ! i) < product_id (tb ! j))
    \<and> (\<forall>i < length tb.
          c_product_name (rows ! i) = product_name (tb ! i)
        \<and> c_product_quantity (rows ! i) = str_int (product_quantity (tb ! i))
        \<and> (\<exists>cents.
              c_product_price (rows ! i)
                = (if product_price (tb ! i) < 0 then ''$-'' else ''$'')
                  @ digits_of (cents div 100) @ ''.'' @ two_digits (cents mod 100)
            \<and> (\<bar>product_price (tb ! i)\<bar> < 2 ^ 51 \<longrightarrow> int cents = \<bar>product_price (tb ! i)\<bar>)
            \<and> 2 ^ 51 * \<bar>int cents - \<bar>product_price (tb ! i)\<bar>\<bar>
                \<le> \<bar>product_price (tb ! i)\<bar> + 2 ^ 50)
        \<and> (\<exists>yyyy.
              c_date_updated (rows ! i)
                = two_digits (month (date_updated (tb ! i))) @ ''/''
                  @ two_digits (day (date_updated (tb ! i))) @ ''/'' @ yyyy
            \<and> list_all is_digit yyyy \<and> digits_val yyyy = year (date_updated (tb ! i))
            \<and> (pad \<or> 1000 \<le> year (date_updated (tb ! i)) \<longrightarrow> length yyyy = 4)))"
proof -
  have each: "in_int64 (product_price r)" "valid_datetime (date_updated r)"
    if "r \<in> set tb" for r
    using that assms by (auto simp: wf_table_def list_all_iff)
  then have "\<forall>r \<in> set tb. \<exists>row. backup_row pad r = Inr row"
    using backup_row_content by blast
  from backup_rows_each [OF this] obtain rows where
    rows: "backup_rows pad tb = Inr rows" "length rows = length tb"
      "\<forall>i < length tb. backup_row pad (tb ! i) = Inr (rows ! i)"
    by blast
  have ids: "\<forall>i j. i < j \<and> j < length tb \<longrightarrow> product_id (tb ! i) < product_id (tb ! j)"
    using assms(1) by (auto simp: wf_table_def sorted_wrt_iff_nth_less)
  have "c_product_name (rows ! i) = product_name (tb ! i)
        \<and> c_product_quantity (rows ! i) = str_int (product_quantity (tb ! i))
        \<and> (\<exists>cents.
              c_product_price (rows ! i)
                = (if product_price (tb ! i) < 0 then ''$-'' else ''$'')
                  @ digits_of (cents div 100) @ ''.'' @ two_digits (cents mod 100)
            \<and> (\<bar>product_price (tb ! i)\<bar> < 2 ^ 51 \<longrightarrow> int cents = \<bar>product_price (tb ! i)\<bar>)
            \<and> 2 ^ 51 * \<bar>int cents - \<bar>product_price (tb ! i)\<bar>\<bar>
                \<le> \<bar>product_price (tb ! i)\<bar> + 2 ^ 50)
        \<and> (\<exists>yyyy.
              c_date_updated (rows ! i)
                = two_digits (month (date_updated (tb ! i))) @ ''/''
                  @ two_digits (day (date_updated (tb ! i))) @ ''/'' @ yyyy
            \<and> list_all is_digit yyyy \<and> digits_val yyyy = year (date_updated (tb ! i))
            \<and> (pad \<or> 1000 \<le> year (date_updated (tb ! i)) \<longrightarrow> length yyyy = 4))"
    if "i < length tb" for i
  proof -
    from that have "tb ! i \<in> set tb" by simp
    from backup_row_content [OF each [OF this], of pad] rows(3) that show ?thesis
      by auto
  qed
  with rows(1,2) ids show ?thesis
    by (intro exI [of _ rows]) (simp add: backup_database_def fieldnames_def)
qed

theorem backup_writes_each_product_witness:
  "backup_database False
     [\<lparr>product_id = 1, product_name = ''Widget'', product_quantity = 10, product_price = 500,
       date_updated = datetime_ymd 2020 1 5\<rparr>,
      \<lparr>product_id = 2, product_name = ''Gadget'', product_quantity = 3, product_price = 1234,
       date_updated = datetime_ymd 1999 12 31\<rparr>]
   = Inr ([''product_name'', ''product_price'', ''product_quantity'', ''date_updated''],
          [\<lparr>c_product_name = ''Widget'', c_product_quantity = ''10'',
            c_product_price = ''$5.00'', c_date_updated = ''01/05/2020''\<rparr>,
           \<lparr>c_product_name = ''Gadget'', c_product_quantity = ''3'',
            c_product_price = ''$12.34'', c_date_updated = ''12/31/1999''\<rparr>])"
proof -
  let ?tb = "[\<lparr>product_id = 1, product_name = ''Widget'', product_quantity = 10,
                product_price = 500, date_updated = datetime_ymd 2020 1 5\<rparr>,
               \<lparr>product_id = 2, product_name = ''Gadget'', product_quantity = 3,
                product_price = 1234, date_updated = datetime_ymd 1999 12 31\<rparr>]"
  have wf: "wf_table ?tb"
    by (simp add: wf_table_def in_int64_def)
  have dates: "\<forall>r \<in> set ?tb. valid_datetime (date_updated r)"
    by (simp add: valid_datetime_def datetime_ymd_def days_in_month_def is_leap_def)
  from backup_writes_each_product [OF wf dates, of False] obtain rows where
    rows: "backup_database False ?tb
           = Inr ([''product_name'', ''product_price'', ''product_quantity'', ''date_updated''],
                  rows)"
    by blast
  have "price_text 500 = Inr ''$5.00''"
    using price_text_exact [of 500] by (simp add: render_eval)
  moreover have "price_text 1234 = Inr ''$12.34''"
    using price_text_exact [of 1234] by (simp add: render_eval)
  ultimately have "backup_rows False ?tb
      = Inr [\<lparr>c_product_name = ''Widget'', c_product_quantity = ''10'',
               c_product_price = ''$5.00'', c_date_updated = ''01/05/2020''\<rparr>,
              \<lparr>c_product_name = ''Gadget'', c_product_quantity = ''3'',
               c_product_price = ''$12.34'', c_date_updated = ''12/31/1999''\<rparr>]"
    by (simp add: backup_row_def render_eval datetime_ymd_def)
  with rows show ?thesis
    by (simp add: backup_database_def)
qed

text \<open>
  The claim as the specification states it fails. The import stores a row dated in the
  year 999 with a negative price, and a price beyond \<open>2\<^sup>5\<^sup>1\<close> cents; where the C library
  does not pad \<^verbatim>\<open>%Y\<close> the backup writes the date \<^verbatim>\<open>01/01/999\<close> and the price
  \<^verbatim>\<open>$-5.00\<close> for the first, and for the second a price one cent above the stored one.
\<close>

theorem backup_short_year_and_minus_sign:
  "add_csv
     [\<lparr>c_product_name = ''Relic'', c_product_quantity = ''1'', c_product_price = ''$-5.00'',
       c_date_updated = ''01/01/0999''\<rparr>,
      \<lparr>c_product_name = ''Gold'', c_product_quantity = ''1'',
       c_product_price = ''53000000000000.37'', c_date_updated = ''01/01/2020''\<rparr>] []
     = ([\<lparr>product_id = 1, product_name = ''Relic'', product_quantity = 1,
          product_price = - 500, date_updated = datetime_ymd 999 1 1\<rparr>,
         \<lparr>product_id = 2, product_name = ''Gold'', product_quantity = 1,
          product_price = 5300000000000037, date_updated = datetime_ymd 2020 1 1\<rparr>], None)
   \<and> backup_database False
       [\<lparr>product_id = 1, product_name = ''Relic'', product_quantity = 1,
         product_price = - 500, date_updated = datetime_ymd 999 1 1\<rparr>,
        \<lparr>product_id = 2, product_name = ''Gold'', product_quantity = 1,
         product_price = 5300000000000037, date_updated = datetime_ymd 2020 1 1\<rparr>]
     = Inr (fieldnames,
            [\<lparr>c_product_name = ''Relic'', c_product_quantity = ''1'',
              c_product_price = ''$-5.00'', c_date_updated = ''01/01/999''\<rparr>,
             \<lparr>c_product_name = ''Gold'', c_product_quantity = ''1'',
              c_product_price = ''$53000000000000.38'', c_date_updated = ''01/01/2020''\<rparr>])"
proof -
  have d1: "strptime ''01/01/0999'' = Inr (datetime_ymd 999 1 1)"
    by (simp add: date_text_eval)
  have d2: "strptime ''01/01/2020'' = Inr (datetime_ymd 2020 1 1)"
    by (simp add: date_text_eval)
  have q: "int_of_text ''1'' = Inr 1"
    by (simp add: text_eval)
  have "add_csv
     [\<lparr>c_product_name = ''Relic'', c_product_quantity = ''1'', c_product_price = ''$-5.00'',
       c_date_updated = ''01/01/0999''\<rparr>,
      \<lparr>c_product_name = ''Gold'', c_product_quantity = ''1'',
       c_product_price = ''53000000000000.37'', c_date_updated = ''01/01/2020''\<rparr>] []
     = ([\<lparr>product_id = 1, product_name = ''Relic'', product_quantity = 1,
          product_price = - 500, date_updated = datetime_ymd 999 1 1\<rparr>,
         \<lparr>product_id = 2, product_name = ''Gold'', product_quantity = 1,
          product_price = 5300000000000037, date_updated = datetime_ymd 2020 1 1\<rparr>], None)"
    by (simp add: csv_entry_def d1 d2 price_minus_5 price_53_37 q table_eval)
  moreover have "price_text (- 500) = Inr ''$-5.00''"
    using price_text_exact [of "- 500"] by (simp add: render_eval)
  then have "backup_database False
       [\<lparr>product_id = 1, product_name = ''Relic'', product_quantity = 1,
         product_price = - 500, date_updated = datetime_ymd 999 1 1\<rparr>,
        \<lparr>product_id = 2, product_name = ''Gold'', product_quantity = 1,
         product_price = 5300000000000037, date_updated = datetime_ymd 2020 1 1\<rparr>]
     = Inr (fieldnames,
            [\<lparr>c_product_name = ''Relic'', c_product_quantity = ''1'',
              c_product_price = ''$-5.00'', c_date_updated = ''01/01/999''\<rparr>,
             \<lparr>c_product_name = ''Gold'', c_product_quantity = ''1'',
              c_product_price = ''$53000000000000.38'', c_date_updated = ''01/01/2020''\<rparr>])"
    by (simp add: backup_database_def backup_row_def price_text_53_37 render_eval
        datetime_ymd_def)
  ultimately show ?thesis by simp
qed

subsection \<open>Backup, then import\<close>

text \<open>
  Claim C7, as the code has it. For a table whose prices are below \<open>2\<^sup>5\<^sup>1\<close> cents in
  absolute value and whose dates are rendered with four digits of year, the backup
  succeeds, importing its rows into an empty table gives the same names, quantities,
  prices and dates, the dates at midnight, in the same order, and importing them into the
  table itself leaves it as it is.
\<close>

theorem backup_then_import_round_trip:
  assumes "wf_table tb"
    and "\<forall>r \<in> set tb. \<bar>product_price r\<bar> < 2 ^ 51 \<and> valid_datetime (date_updated r)
            \<and> (pad \<or> 1000 \<le> year (date_updated r))"
  shows "\<exists>rows tb'.
      backup_database pad tb = Inr (fieldnames, rows)
    \<and> add_csv rows [] = (tb', None)
    \<and> map (\<lambda>r. (product_name r, product_quantity r, product_price r, date_updated r)) tb'
      = map (\<lambda>r. (product_name r, product_quantity r, product_price r,
                   midnight (date_updated r))) tb
    \<and> add_csv rows tb = (tb, None)"
proof -
  have "\<forall>r \<in> set tb. \<exists>row. backup_row pad r = Inr row"
    using assms(2) csv_entry_backup_row by blast
  from backup_rows_each [OF this] obtain rows where
    rows: "backup_rows pad tb = Inr rows"
    by blast
  have q64: "\<forall>r \<in> set tb. in_int64 (product_quantity r)"
    using assms(1) by (auto simp: wf_table_def list_all_iff)
  from add_csv_backup_fresh [OF rows, of "[]"] assms q64 obtain new where
    new: "add_csv rows [] = (new, None)"
      "map (\<lambda>r. (product_name r, product_quantity r, product_price r, date_updated r)) new
       = map (\<lambda>r. (product_name r, product_quantity r, product_price r,
                    midnight (date_updated r))) tb"
    by (auto simp: wf_table_def)
  have "add_csv rows tb = (tb, None)"
    using add_csv_backup_same [OF assms(1) _ rows] assms(2) by simp
  with rows new show ?thesis
    by (intro exI [of _ rows] exI [of _ new]) (simp add: backup_database_def)
qed

theorem backup_then_import_round_trip_witness:
  "\<exists>rows tb'.
      backup_database False
        [\<lparr>product_id = 4, product_name = ''Widget'', product_quantity = 10,
          product_price = 500,
          date_updated = \<lparr>year = 2020, month = 1, day = 5, hour = 13, minute = 30,
                           second = 0, microsecond = 0\<rparr>\<rparr>] = Inr (fieldnames, rows)
    \<and> add_csv rows [] = (tb', None)
    \<and> map (\<lambda>r. (product_name r, product_quantity r, product_price r, date_updated r)) tb'
      = [(''Widget'', 10, 500, datetime_ymd 2020 1 5)]
    \<and> add_csv rows
        [\<lparr>product_id = 4, product_name = ''Widget'', product_quantity = 10,
          product_price = 500,
          date_updated = \<lparr>year = 2020, month = 1, day = 5, hour = 13, minute = 30,
                           second = 0, microsecond = 0\<rparr>\<rparr>]
      = ([\<lparr>product_id = 4, product_name = ''Widget'', product_quantity = 10,
           product_price = 500,
           date_updated = \<lparr>year = 2020, month = 1, day = 5, hour = 13, minute = 30,
                            second = 0, microsecond = 0\<rparr>\<rparr>], None)"
  using backup_then_import_round_trip
    [of "[\<lparr>product_id = 4, product_name = ''Widget'', product_quantity = 10,
           product_price = 500,
           date_updated = \<lparr>year = 2020, month = 1, day = 5, hour = 13, minute = 30,
                            second = 0, microsecond = 0\<rparr>\<rparr>]" False]
  by (simp add: wf_table_def in_int64_def valid_datetime_def days_in_month_def is_leap_def
      midnight_def datetime_ymd_def)

text \<open>
  Without the bound on the prices the claim fails. The import of the price text
  \<^verbatim>\<open>53000000000000.37\<close> stores 5300000000000037 cents; the backup renders that price as
  \<^verbatim>\<open>$53000000000000.38\<close>, and importing the backup gives 5300000000000038 cents.
\<close>

theorem large_price_changes_in_round_trip:
  "add_csv [\<lparr>c_product_name = ''Gold'', c_product_quantity = ''1'',
             c_product_price = ''53000000000000.37'', c_date_updated = ''01/01/2020''\<rparr>] []
     = ([\<lparr>product_id = 1, product_name = ''Gold'', product_quantity = 1,
          product_price = 5300000000000037, date_updated = datetime_ymd 2020 1 1\<rparr>], None)
   \<and> backup_database False
       [\<lparr>product_id = 1, product_name = ''Gold'', product_quantity = 1,
         product_price = 5300000000000037, date_updated = datetime_ymd 2020 1 1\<rparr>]
     = Inr (fieldnames,
            [\<lparr>c_product_name = ''Gold'', c_product_quantity = ''1'',
              c_product_price = ''$53000000000000.38'', c_date_updated = ''01/01/2020''\<rparr>])
   \<and> add_csv [\<lparr>c_product_name = ''Gold'', c_product_quantity = ''1'',
               c_product_price = ''$53000000000000.38'', c_date_updated = ''01/01/2020''\<rparr>] []
     = ([\<lparr>product_id = 1, product_name = ''Gold'', product_quantity = 1,
          product_price = 5300000000000038, date_updated = datetime_ymd 2020 1 1\<rparr>], None)"
proof -
  have d: "strptime ''01/01/2020'' = Inr (datetime_ymd 2020 1 1)"
    by (simp add: date_text_eval)
  have q: "int_of_text ''1'' = Inr 1"
    by (simp add: int_of_text_def float_text_eval)
  have "add_csv [\<lparr>c_product_name = ''Gold'', c_product_quantity = ''1'',
             c_product_price = ''53000000000000.37'', c_date_updated = ''01/01/2020''\<rparr>] []
     = ([\<lparr>product_id = 1, product_name = ''Gold'', product_quantity = 1,
          product_price = 5300000000000037, date_updated = datetime_ymd 2020 1 1\<rparr>], None)"
    by (simp add: csv_entry_def d price_53_37 q table_eval)
  moreover have "backup_database False
       [\<lparr>product_id = 1, product_name = ''Gold'', product_quantity = 1,
         product_price = 5300000000000037, date_updated = datetime_ymd 2020 1 1\<rparr>]
     = Inr (fieldnames,
            [\<lparr>c_product_name = ''Gold'', c_product_quantity = ''1'',
              c_product_price = ''$53000000000000.38'', c_date_updated = ''01/01/2020''\<rparr>])"
    by (simp add: backup_database_def backup_row_def price_text_53_37 render_eval
        datetime_ymd_def)
  moreover have "add_csv [\<lparr>c_product_name = ''Gold'', c_product_quantity = ''1'',
               c_product_price = ''$53000000000000.38'', c_date_updated = ''01/01/2020''\<rparr>] []
     = ([\<lparr>product_id = 1, product_name = ''Gold'', product_quantity = 1,
          product_price = 5300000000000038, date_updated = datetime_ymd 2020 1 1\<rparr>], None)"
    by (simp add: csv_entry_def d price_53_38 q table_eval)
  ultimately show ?thesis by simp
qed

end
